theory Spec2Isabelle
  imports Complex_Main
begin

section \<open>Shared vocabulary\<close>

text \<open>
  The exceptions the three scripts raise or catch. \<open>NoSuchElementException\<close>,
  \<open>StaleElementReferenceException\<close> and \<open>TimeoutException\<close> are subclasses of selenium's
  \<open>WebDriverException\<close>; the constructor \<open>WebDriverException\<close> stands for any other member
  of that class, \<open>OtherException\<close> for any exception outside every class named here.
\<close>

datatype exn =
    NoSuchElementException
  | StaleElementReferenceException
  | TimeoutException
  | WebDriverException
  | AttributeError
  | KeyError
  | OtherException

fun is_WebDriverException :: "exn \<Rightarrow> bool" where
  "is_WebDriverException NoSuchElementException = True"
| "is_WebDriverException StaleElementReferenceException = True"
| "is_WebDriverException TimeoutException = True"
| "is_WebDriverException WebDriverException = True"
| "is_WebDriverException AttributeError = False"
| "is_WebDriverException KeyError = False"
| "is_WebDriverException OtherException = False"

text \<open>
  A cell of a pandas DataFrame as \<open>read_csv\<close> delivers it: text, a number, or the
  missing value.
\<close>

datatype cell = Str string | Num real | NaN

type_synonym row = "string \<rightharpoonup> cell"

type_synonym dataframe = "row list"

text \<open>
  What the scripts do to the outside world, in the order they do it: the observable
  behaviour of a run is its list of events.
\<close>

datatype event =
    Get cell
  | Sleep nat
  | Post nat "cell list"
  | Skip nat
  | Log_error nat
  | To_csv dataframe
  | Visit nat
  | Click

fun posts :: "event list \<Rightarrow> nat list" where
  "posts [] = []"
| "posts (Post i p # es) = i # posts es"
| "posts (e # es) = posts es"

fun saves :: "event list \<Rightarrow> dataframe list" where
  "saves [] = []"
| "saves (To_csv d # es) = d # saves es"
| "saves (e # es) = saves es"

fun skips :: "event list \<Rightarrow> nat list" where
  "skips [] = []"
| "skips (Skip i # es) = i # skips es"
| "skips (e # es) = skips es"

fun gets :: "event list \<Rightarrow> cell list" where
  "gets [] = []"
| "gets (Get u # es) = u # gets es"
| "gets (e # es) = gets es"

fun visits :: "event list \<Rightarrow> nat list" where
  "visits [] = []"
| "visits (Visit k # es) = k # visits es"
| "visits (e # es) = visits es"

fun clicks :: "event list \<Rightarrow> nat" where
  "clicks [] = 0"
| "clicks (Click # es) = Suc (clicks es)"
| "clicks (e # es) = clicks es"

subsection \<open>Python string operations\<close>

text \<open>
  Strings are lists of bytes; the operations below are those of Python's \<open>str\<close> on ASCII
  text. \<open>strip\<close> removes the ASCII characters \<open>str.isspace\<close> holds of (white space
  beyond ASCII, such as U+0085 and U+00A0, is not covered), \<open>lower\<close> maps
  \<open>A\<close>..\<open>Z\<close> to \<open>a\<close>..\<open>z\<close>, \<open>contains sub s\<close> is \<open>sub in s\<close>, \<open>replace\<close> rewrites the
  occurrences of \<open>old\<close> from left to right without overlap, and \<open>join\<close> is \<open>sep.join\<close>.
\<close>

definition is_space :: "char \<Rightarrow> bool" where
  "is_space c = (of_char c \<in> {9, 10, 11, 12, 13, 28, 29, 30, 31, 32 :: nat})"

definition strip :: "string \<Rightarrow> string" where
  "strip s = rev (dropWhile is_space (rev (dropWhile is_space s)))"

definition lower_char :: "char \<Rightarrow> char" where
  "lower_char c =
     (if 65 \<le> (of_char c :: nat) \<and> (of_char c :: nat) \<le> 90
      then char_of ((of_char c :: nat) + 32) else c)"

definition lower :: "string \<Rightarrow> string" where
  "lower s = map lower_char s"

fun contains :: "string \<Rightarrow> string \<Rightarrow> bool" where
  "contains sub [] = (sub = [])"
| "contains sub (c # cs) = (take (length sub) (c # cs) = sub \<or> contains sub cs)"

fun replace :: "string \<Rightarrow> string \<Rightarrow> string \<Rightarrow> string" where
  "replace old new [] = (if old = [] then new else [])"
| "replace old new (c # cs) =
     (if old = [] then new @ c # replace old new cs
      else if take (length old) (c # cs) = old
      then new @ replace old new (drop (length old - 1) cs)
      else c # replace old new cs)"

fun join :: "string \<Rightarrow> string list \<Rightarrow> string" where
  "join sep [] = []"
| "join sep [x] = x"
| "join sep (x # y # ys) = x @ sep @ join sep (y # ys)"

subsection \<open>Page elements\<close>

text \<open>
  A selenium \<open>WebElement\<close> as the scripts use it: reading \<open>element.text\<close> gives a string
  or raises, and \<open>element.get_attribute(a)\<close> gives a string, Python's \<open>None\<close> (here
  \<open>None\<close>) for an attribute that is not set, or raises.
\<close>

record element =
  elem_text :: "exn + string"
  elem_attr :: "string \<Rightarrow> exn + string option"

definition safe_get_text :: "element \<Rightarrow> exn + string" where
  "safe_get_text el =
     (case elem_text el of
        Inl e \<Rightarrow>
          if e = StaleElementReferenceException \<or> e = AttributeError then Inr ''N/A'' else Inl e
      | Inr t \<Rightarrow> Inr (if t \<noteq> [] then strip t else ''N/A''))"

definition safe_get_attribute :: "element \<Rightarrow> string \<Rightarrow> exn + string option" where
  "safe_get_attribute el attribute =
     (case elem_attr el attribute of
        Inl e \<Rightarrow>
          if e = StaleElementReferenceException \<or> e = AttributeError then Inr (Some ''N/A'') else Inl e
      | Inr v \<Rightarrow> Inr v)"

section \<open>gaf\_scraper.py\<close>

subsection \<open>safe\_navigate\<close>

text \<open>
  What the browser does at one attempt: \<open>Loaded\<close> when \<open>driver.get\<close>, the wait for
  \<open>document.readyState\<close> and the wait for the listing container all return;
  \<open>Listing_timeout\<close> when the last of these raises \<open>TimeoutException\<close> (the inner handler);
  \<open>Load_failed e\<close> when any of them raises \<open>e\<close> otherwise (the outer handler catches
  \<open>WebDriverException\<close> only). The browser is a parameter: its outcome at each attempt.
\<close>

datatype load_outcome = Loaded | Listing_timeout | Load_failed exn

text \<open>
  \<open>for attempt in range(max_retries)\<close>, from \<open>attempt\<close> on. The result is \<open>Inr True\<close>,
  \<open>Inr False\<close>, or \<open>Inl e\<close> when \<open>e\<close> leaves the function.
\<close>

function safe_navigate_from ::
  "(nat \<Rightarrow> load_outcome) \<Rightarrow> cell \<Rightarrow> nat \<Rightarrow> nat \<Rightarrow> (exn + bool) \<times> event list" where
  "safe_navigate_from browser url max_retries attempt =
     (if attempt < max_retries then
        (case browser attempt of
           Loaded \<Rightarrow> (Inr True, [Get url])
         | Listing_timeout \<Rightarrow>
             (case safe_navigate_from browser url max_retries (Suc attempt) of
                (res, evs) \<Rightarrow>
                  (res, Get url # (if attempt + 1 < max_retries then [Sleep 5] else []) @ evs))
         | Load_failed e \<Rightarrow>
             if is_WebDriverException e then
               if attempt + 1 < max_retries then
                 (case safe_navigate_from browser url max_retries (Suc attempt) of
                    (res, evs) \<Rightarrow> (res, Get url # Sleep 5 # evs))
               else (Inr False, [Get url])
             else (Inl e, [Get url]))
      else (Inr False, []))"
  by pat_completeness auto
termination
  by (relation "measure (\<lambda>(browser, url, max_retries, attempt). max_retries - attempt)") auto

declare safe_navigate_from.simps [simp del]

definition safe_navigate :: "(nat \<Rightarrow> load_outcome) \<Rightarrow> cell \<Rightarrow> nat \<Rightarrow> (exn + bool) \<times> event list" where
  "safe_navigate browser url max_retries = safe_navigate_from browser url max_retries 0"

subsection \<open>One listing item\<close>

text \<open>
  A listing item \<open>li\<close>: what each of the lookups the loop body makes on it yields, an
  element (or a list of elements) or the exception the lookup raises.
\<close>

record item =
  name_element :: "exn + element"
  link_element :: "exn + element"
  stars_element :: "exn + element"
  cert_elements :: "exn + element list"
  phone_element :: "exn + element"
  tel_element :: "exn + element"

text \<open>
  The dictionary \<open>contractor_data\<close> has five fixed keys. A value is a string, or Python's
  \<open>None\<close> (here \<open>None\<close>), which \<open>get_attribute\<close> may return.
\<close>

record contractor =
  name :: "string option"
  page_link :: "string option"
  rating_stars :: "string option"
  certifications :: "string option"
  phone_number :: "string option"

definition new_contractor :: contractor where
  "new_contractor =
     \<lparr>name = Some ''N/A'', page_link = Some ''N/A'', rating_stars = Some ''N/A'',
      certifications = Some ''N/A'', phone_number = Some ''N/A''\<rparr>"

text \<open>
  Each block of the loop body maps the dictionary to the updated dictionary, or to the
  exception that leaves the block's own \<open>try\<close> (and reaches the item's \<open>except Exception\<close>).
\<close>

definition extract_name_link :: "item \<Rightarrow> contractor \<Rightarrow> exn + contractor" where
  "extract_name_link it d =
     (case name_element it of
        Inl e \<Rightarrow> if e = NoSuchElementException then Inr d else Inl e
      | Inr name_el \<Rightarrow>
          (case link_element it of
             Inl e \<Rightarrow> if e = NoSuchElementException then Inr d else Inl e
           | Inr link_el \<Rightarrow>
               (case safe_get_text name_el of
                  Inl e \<Rightarrow> if e = NoSuchElementException then Inr d else Inl e
                | Inr t \<Rightarrow>
                    (case safe_get_attribute link_el ''href'' of
                       Inl e \<Rightarrow>
                         if e = NoSuchElementException then Inr (d\<lparr>name := Some t\<rparr>) else Inl e
                     | Inr h \<Rightarrow> Inr (d\<lparr>name := Some t, page_link := h\<rparr>)))))"

definition extract_rating :: "item \<Rightarrow> contractor \<Rightarrow> exn + contractor" where
  "extract_rating it d =
     (case stars_element it of
        Inl e \<Rightarrow> if e = NoSuchElementException then Inr d else Inl e
      | Inr stars_el \<Rightarrow>
          (case safe_get_text stars_el of
             Inl e \<Rightarrow> if e = NoSuchElementException then Inr d else Inl e
           | Inr t \<Rightarrow> Inr (d\<lparr>rating_stars := Some t\<rparr>)))"

text \<open>
  \<open>[safe_get_text(cert) for cert in cert_elements if safe_get_text(cert) != "N/A"]\<close>:
  the first text access that raises ends the comprehension.
\<close>

fun cert_texts :: "element list \<Rightarrow> exn + string list" where
  "cert_texts [] = Inr []"
| "cert_texts (cert # certs) =
     (case safe_get_text cert of
        Inl e \<Rightarrow> Inl e
      | Inr t \<Rightarrow>
          (case cert_texts certs of
             Inl e \<Rightarrow> Inl e
           | Inr ts \<Rightarrow> Inr (if t \<noteq> ''N/A'' then t # ts else ts)))"

text \<open>The block for the certifications has a bare \<open>except\<close>: nothing leaves it.\<close>

definition extract_certifications :: "item \<Rightarrow> contractor \<Rightarrow> contractor" where
  "extract_certifications it d =
     (case cert_elements it of
        Inl e \<Rightarrow> d
      | Inr els \<Rightarrow>
          if els \<noteq> [] then
            (case cert_texts els of
               Inl e \<Rightarrow> d
             | Inr certs \<Rightarrow>
                 d\<lparr>certifications := Some (if certs \<noteq> [] then join '', '' certs else ''N/A'')\<rparr>)
          else d)"

definition extract_phone_alternative :: "item \<Rightarrow> contractor \<Rightarrow> exn + contractor" where
  "extract_phone_alternative it d =
     (case tel_element it of
        Inl e \<Rightarrow> if e = NoSuchElementException then Inr d else Inl e
      | Inr phone_el \<Rightarrow>
          (case elem_text phone_el of
             Inl e \<Rightarrow> if e = NoSuchElementException then Inr d else Inl e
           | Inr t \<Rightarrow> Inr (d\<lparr>phone_number := Some (strip (replace ''Phone Number:'' [] t))\<rparr>)))"

definition extract_phone :: "item \<Rightarrow> contractor \<Rightarrow> exn + contractor" where
  "extract_phone it d =
     (case phone_element it of
        Inl e \<Rightarrow> if e = NoSuchElementException then extract_phone_alternative it d else Inl e
      | Inr phone_el \<Rightarrow>
          (case elem_text phone_el of
             Inl e \<Rightarrow> if e = NoSuchElementException then extract_phone_alternative it d else Inl e
           | Inr phone_text \<Rightarrow>
               Inr (d\<lparr>phone_number :=
                      Some (if contains ''Phone Number:'' phone_text
                            then strip (replace ''Phone Number:'' [] phone_text)
                            else phone_text)\<rparr>)))"

text \<open>
  The body of \<open>for idx, item in enumerate(contractor_items, 1)\<close>: the record to append, or
  \<open>None\<close> when an exception reached the item's \<open>except Exception\<close> and nothing is appended.
\<close>

definition process_item :: "item \<Rightarrow> contractor option" where
  "process_item it =
     (case extract_name_link it new_contractor of
        Inl e \<Rightarrow> None
      | Inr d1 \<Rightarrow>
          (case extract_rating it d1 of
             Inl e \<Rightarrow> None
           | Inr d2 \<Rightarrow>
               (case extract_phone it (extract_certifications it d2) of
                  Inl e \<Rightarrow> None
                | Inr d4 \<Rightarrow> Some d4)))"

definition process_items :: "item list \<Rightarrow> contractor list" where
  "process_items its = List.map_filter process_item its"

subsection \<open>scrape\_contractor\_info\<close>

text \<open>
  A listing page as the walker queries it: the items lookup (before the handler of
  \<open>wait_and_find_elements\<close>), the three lookups of the next button, the outcome of the
  click script and of the wait for the listing container after it (\<open>None\<close>: no exception).
  The wait for the loading indicator sits under a bare \<open>except: pass\<close> and has no effect.
\<close>

record listing_page =
  contractor_items :: "exn + item list"
  next_nth9 :: "exn + element"
  next_nth8 :: "exn + element"
  next_aria :: "exn + element"
  click_script :: "exn option"
  listing_wait :: "exn option"

definition wait_and_find_elements :: "exn + 'a list \<Rightarrow> exn + 'a list" where
  "wait_and_find_elements found =
     (case found of
        Inl e \<Rightarrow>
          if e = TimeoutException \<or> e = StaleElementReferenceException then Inr [] else Inl e
      | Inr els \<Rightarrow> Inr els)"

text \<open>
  The three lookups of the next button, each under \<open>except NoSuchElementException: pass\<close>;
  any other exception reaches the \<open>except Exception\<close> around the whole search.
\<close>

definition find_next_button :: "listing_page \<Rightarrow> exn + element option" where
  "find_next_button pg =
     (case next_nth9 pg of
        Inr b \<Rightarrow> Inr (Some b)
      | Inl e \<Rightarrow>
          if e \<noteq> NoSuchElementException then Inl e
          else
            (case next_nth8 pg of
               Inr b \<Rightarrow> Inr (Some b)
             | Inl e \<Rightarrow>
                 if e \<noteq> NoSuchElementException then Inl e
                 else
                   (case next_aria pg of
                      Inr b \<Rightarrow> Inr (Some b)
                    | Inl e \<Rightarrow> if e \<noteq> NoSuchElementException then Inl e else Inr None)))"

text \<open>
  The loop \<open>while current_page <= max_pages\<close>. \<open>pages k\<close> is the page the browser shows
  while \<open>current_page = k\<close>. Every path either leaves the loop or increments
  \<open>current_page\<close>; an exception of the items lookup that its handler does not catch leaves
  the function.
\<close>

function walk ::
  "(nat \<Rightarrow> listing_page) \<Rightarrow> nat \<Rightarrow> nat \<Rightarrow> contractor list \<Rightarrow> event list
     \<Rightarrow> (exn + contractor list) \<times> event list" where
  "walk site max_pages current_page contractors_data tr =
     (if current_page \<le> max_pages then
        (case wait_and_find_elements (contractor_items (site current_page)) of
           Inl e \<Rightarrow> (Inl e, tr @ [Visit current_page])
         | Inr its \<Rightarrow>
             if its = [] then (Inr contractors_data, tr @ [Visit current_page])
             else
               (case find_next_button (site current_page) of
                  Inl e \<Rightarrow> (Inr (contractors_data @ process_items its), tr @ [Visit current_page])
                | Inr None \<Rightarrow> (Inr (contractors_data @ process_items its), tr @ [Visit current_page])
                | Inr (Some next_button) \<Rightarrow>
                    (case safe_get_attribute next_button ''disabled'' of
                       Inl e \<Rightarrow>
                         (Inr (contractors_data @ process_items its), tr @ [Visit current_page])
                     | Inr button_disabled \<Rightarrow>
                         if button_disabled \<noteq> Some ''true'' \<and> current_page < max_pages then
                           (case click_script (site current_page) of
                              Some e \<Rightarrow>
                                (Inr (contractors_data @ process_items its),
                                 tr @ [Visit current_page])
                            | None \<Rightarrow>
                                (case listing_wait (site current_page) of
                                   Some e \<Rightarrow>
                                     (Inr (contractors_data @ process_items its),
                                      tr @ [Visit current_page, Click, Sleep 5])
                                 | None \<Rightarrow>
                                     walk site max_pages (current_page + 1)
                                       (contractors_data @ process_items its)
                                       (tr @ [Visit current_page, Click, Sleep 5])))
                         else
                           (Inr (contractors_data @ process_items its),
                            tr @ [Visit current_page]))))
      else (Inr contractors_data, tr))"
  by pat_completeness auto
termination
  by (relation "measure (\<lambda>(site, max_pages, current_page, contractors_data, tr).
        max_pages + 1 - current_page)") auto

declare walk.simps [simp del]

text \<open>
  The browser the listing stage runs against: the outcomes of the attempts to load the base
  URL, and the listing pages.
\<close>

record listing_site =
  base_loads :: "nat \<Rightarrow> load_outcome"
  pages :: "nat \<Rightarrow> listing_page"

definition scrape_contractor_info ::
  "listing_site \<Rightarrow> cell \<Rightarrow> nat \<Rightarrow> (exn + contractor list) \<times> event list" where
  "scrape_contractor_info driver base_url max_pages =
     (case safe_navigate (base_loads driver) base_url 3 of
        (Inl e, evs) \<Rightarrow> (Inl e, evs)
      | (Inr False, evs) \<Rightarrow> (Inr [], evs)
      | (Inr True, evs) \<Rightarrow> walk (pages driver) max_pages 1 [] evs)"

section \<open>extract\_about\_sections.py\<close>

subsection \<open>safe\_navigate\<close>

text \<open>
  This file has its own \<open>safe_navigate\<close>: no wait for a listing container, a settle sleep
  of 3 after a load. The browser's outcome at an attempt is \<open>None\<close> when \<open>driver.get\<close> and
  the wait for \<open>document.readyState\<close> return, and \<open>Some e\<close> when one of them raises \<open>e\<close>.
\<close>

function safe_navigate_detail_from ::
  "(nat \<Rightarrow> exn option) \<Rightarrow> cell \<Rightarrow> nat \<Rightarrow> nat \<Rightarrow> (exn + bool) \<times> event list" where
  "safe_navigate_detail_from browser url max_retries attempt =
     (if attempt < max_retries then
        (case browser attempt of
           None \<Rightarrow> (Inr True, [Get url, Sleep 3])
         | Some e \<Rightarrow>
             if is_WebDriverException e then
               if attempt + 1 < max_retries then
                 (case safe_navigate_detail_from browser url max_retries (Suc attempt) of
                    (res, evs) \<Rightarrow> (res, Get url # Sleep 5 # evs))
               else (Inr False, [Get url])
             else (Inl e, [Get url]))
      else (Inr False, []))"
  by pat_completeness auto
termination
  by (relation "measure (\<lambda>(browser, url, max_retries, attempt). max_retries - attempt)") auto

declare safe_navigate_detail_from.simps [simp del]

definition safe_navigate_detail ::
  "(nat \<Rightarrow> exn option) \<Rightarrow> cell \<Rightarrow> nat \<Rightarrow> (exn + bool) \<times> event list" where
  "safe_navigate_detail browser url max_retries = safe_navigate_detail_from browser url max_retries 0"

subsection \<open>extract\_about\_section\<close>

text \<open>
  A \<open>section\<close> element: its headings (\<open>h1\<close>..\<open>h6\<close>) and its paragraphs, each lookup
  giving the elements or raising. A contractor page: the lookup of the canonical path, of
  all sections and of all paragraphs.
\<close>

record section_element =
  headings :: "exn + element list"
  paragraphs :: "exn + element list"

record page =
  about_element :: "exn + element"
  sections :: "exn + section_element list"
  all_paragraphs :: "exn + element list"

text \<open>\<open>[safe_get_text(p) for p in paragraphs]\<close>; the first access that raises ends it.\<close>

fun safe_get_texts :: "element list \<Rightarrow> exn + string list" where
  "safe_get_texts [] = Inr []"
| "safe_get_texts (p # ps) =
     (case safe_get_text p of
        Inl e \<Rightarrow> Inl e
      | Inr t \<Rightarrow> (case safe_get_texts ps of Inl e \<Rightarrow> Inl e | Inr ts \<Rightarrow> Inr (t # ts)))"

text \<open>
  \<open>for heading in headings\<close> within one section: \<open>Inr (Some t)\<close> when the function returns
  \<open>t\<close>, \<open>Inr None\<close> when the headings are used up, \<open>Inl e\<close> when \<open>e\<close> is raised.
\<close>

fun search_headings :: "element list \<Rightarrow> section_element \<Rightarrow> exn + string option" where
  "search_headings [] sec = Inr None"
| "search_headings (heading # hs) sec =
     (case safe_get_text heading of
        Inl e \<Rightarrow> Inl e
      | Inr t \<Rightarrow>
          if contains ''about'' (lower t) then
            (case paragraphs sec of
               Inl e \<Rightarrow> Inl e
             | Inr ps \<Rightarrow>
                 if ps \<noteq> [] then
                   (case safe_get_texts ps of
                      Inl e \<Rightarrow> Inl e
                    | Inr ts \<Rightarrow> Inr (Some (join [CHR 0x0A] ts)))
                 else search_headings hs sec)
          else search_headings hs sec)"

text \<open>
  \<open>for section in sections\<close>: the body is under a bare \<open>except: continue\<close>, so a section
  that raises is passed over.
\<close>

fun search_sections :: "section_element list \<Rightarrow> string option" where
  "search_sections [] = None"
| "search_sections (sec # secs) =
     (case headings sec of
        Inl e \<Rightarrow> search_sections secs
      | Inr hs \<Rightarrow>
          (case search_headings hs sec of
             Inl e \<Rightarrow> search_sections secs
           | Inr None \<Rightarrow> search_sections secs
           | Inr (Some about_text) \<Rightarrow> Some about_text))"

fun scan_paragraphs :: "element list \<Rightarrow> exn + string option" where
  "scan_paragraphs [] = Inr None"
| "scan_paragraphs (p # ps) =
     (case safe_get_text p of
        Inl e \<Rightarrow> Inl e
      | Inr p_text \<Rightarrow>
          if length p_text > 100
             \<and> (contains ''about'' (lower p_text) \<or> contains ''our company'' (lower p_text))
          then Inr (Some p_text)
          else scan_paragraphs ps)"

text \<open>
  The handler of \<open>NoSuchElementException\<close>: the search by heading, then the scan of all
  paragraphs; an exception in either is printed and \<open>about_text\<close> is still \<open>'N/A'\<close>.
\<close>

definition about_alternatives :: "page \<Rightarrow> string" where
  "about_alternatives pg =
     (case sections pg of
        Inl e \<Rightarrow> ''N/A''
      | Inr secs \<Rightarrow>
          (case search_sections secs of
             Some about_text \<Rightarrow> about_text
           | None \<Rightarrow>
               (case all_paragraphs pg of
                  Inl e \<Rightarrow> ''N/A''
                | Inr ps \<Rightarrow>
                    (case scan_paragraphs ps of
                       Inl e \<Rightarrow> ''N/A''
                     | Inr None \<Rightarrow> ''N/A''
                     | Inr (Some about_text) \<Rightarrow> about_text))))"

definition about_of_page :: "page \<Rightarrow> string" where
  "about_of_page pg =
     (case about_element pg of
        Inl e \<Rightarrow> if e = NoSuchElementException then about_alternatives pg else ''N/A''
      | Inr el \<Rightarrow>
          (case safe_get_text el of
             Inl e \<Rightarrow> if e = NoSuchElementException then about_alternatives pg else ''N/A''
           | Inr t \<Rightarrow> t))"

text \<open>
  What the browser does at one URL: the outcomes of the load attempts and the page it
  shows once loaded. \<open>safe_navigate\<close> is called outside the \<open>try\<close>, so an exception it does
  not catch leaves \<open>extract_about_section\<close>.
\<close>

record site =
  loads :: "nat \<Rightarrow> exn option"
  shown :: page

definition extract_about_section :: "site \<Rightarrow> cell \<Rightarrow> (exn + string) \<times> event list" where
  "extract_about_section driver url =
     (case safe_navigate_detail (loads driver) url 3 of
        (Inl e, evs) \<Rightarrow> (Inl e, evs)
      | (Inr False, evs) \<Rightarrow> (Inr ''N/A'', evs)
      | (Inr True, evs) \<Rightarrow> (Inr (about_of_page (shown driver)), evs))"

subsection \<open>process\_contractors\_file\<close>

text \<open>
  The world of the detail stage: whether \<open>setup_driver\<close> raises, what the browser does at
  the first URL (visited once before the loop), whether the cookie banner is found and
  clicked there, and what the browser does for the record at each position.
\<close>

record web =
  setup_driver :: "exn option"
  first_site :: site
  cookie_banner :: bool
  record_site :: "nat \<Rightarrow> site"

text \<open>Python's truth value of a cell: the empty string and zero are false, NaN is true.\<close>

fun truthy :: "cell \<Rightarrow> bool" where
  "truthy (Str s) = (s \<noteq> [])"
| "truthy (Num x) = (x \<noteq> 0)"
| "truthy NaN = True"

text \<open>
  One iteration of the loop. The handler of the inner \<open>try\<close> logs the position and
  continues.
\<close>

definition about_step ::
  "web \<Rightarrow> nat \<Rightarrow> nat \<times> row \<Rightarrow> dataframe \<times> event list \<Rightarrow> dataframe \<times> event list" where
  "about_step w n ir st =
     (case ir of (idx, r) \<Rightarrow> case st of (df, tr) \<Rightarrow>
      (case r ''name'' of
         None \<Rightarrow> (df, tr @ [Log_error (idx + 1)])
       | Some contractor_name \<Rightarrow>
           (case r ''page_link'' of
              None \<Rightarrow> (df, tr @ [Log_error (idx + 1)])
            | Some link \<Rightarrow>
                if link = Str ''N/A'' \<or> \<not> truthy link then (df, tr @ [Skip idx])
                else
                  (case extract_about_section (record_site w idx) link of
                     (Inl e, evs) \<Rightarrow> (df, tr @ evs @ [Log_error (idx + 1)])
                   | (Inr about_section, evs) \<Rightarrow>
                       let df' = df[idx := (df ! idx)(''about_section'' \<mapsto> Str about_section)]
                       in (df', tr @ evs
                             @ (if (idx + 1) mod 5 = 0 \<or> idx + 1 = n then [To_csv df'] else [])
                             @ [Sleep 2])))))"

definition reset_about :: "dataframe \<Rightarrow> dataframe" where
  "reset_about df = map (\<lambda>r. r(''about_section'' \<mapsto> Str ''N/A'')) df"

text \<open>
  Before the loop: \<open>df['page_link'].iloc[0]\<close> (a \<open>KeyError\<close> without that column), a visit
  of that URL when it is truthy, and the cookie banner. \<open>Inl (e, evs)\<close> when \<open>e\<close> reaches the
  outer handler after the events \<open>evs\<close>, else the events.
\<close>

definition first_visit :: "web \<Rightarrow> dataframe \<Rightarrow> exn \<times> event list + event list" where
  "first_visit w df =
     (case df of
        [] \<Rightarrow> Inr []
      | r # rs \<Rightarrow>
          (case r ''page_link'' of
             None \<Rightarrow> Inl (KeyError, [])
           | Some first_url \<Rightarrow>
               if truthy first_url then
                 (case safe_navigate_detail (loads (first_site w)) first_url 3 of
                    (Inl e, evs) \<Rightarrow> Inl (e, evs)
                  | (Inr ok, evs) \<Rightarrow> Inr (evs @ (if cookie_banner w then [Sleep 1] else [])))
               else Inr []))"

text \<open>
  The whole function: the read (an exception is printed and the function returns), the new
  column, the driver, the first visit, the loop, the final write. An exception of the
  driver set-up or of the first visit reaches the outer handler, which only prints.
\<close>

definition process_contractors_file :: "web \<Rightarrow> exn + dataframe \<Rightarrow> dataframe \<times> event list" where
  "process_contractors_file w input_file =
     (case input_file of
        Inl e \<Rightarrow> ([], [])
      | Inr df_in \<Rightarrow>
          let df0 = reset_about df_in in
          (case setup_driver w of
             Some e \<Rightarrow> (df0, [])
           | None \<Rightarrow>
               (case first_visit w df0 of
                  Inl (e, evs0) \<Rightarrow> (df0, evs0)
                | Inr evs0 \<Rightarrow>
                    let (df, tr) = fold (about_step w (length df0)) (enumerate 0 df0) (df0, evs0)
                    in (df, tr @ [To_csv df]))))"

section \<open>analyze\_contractors\_with\_gpt.py\<close>

text \<open>
  The answer of the remote service to one \<open>requests.post\<close>: the call raises, or a
  response arrives with a status code and a body. The body is \<open>Some t\<close> when
  \<open>response.json()['choices'][0]['message']['content']\<close> evaluates to the text \<open>t\<close> and
  \<open>None\<close> when that expression raises. A reply whose content is present but not a string
  is not represented.
\<close>

datatype http_outcome = Transport_error | Response int "string option"

text \<open>
  The service is a parameter of the model: its answer to the request made for the record
  at a given position, carrying the five cells the prompt is built from.
\<close>

type_synonym api = "nat \<Rightarrow> cell list \<Rightarrow> http_outcome"

text \<open>The f-string of the prompt reads five keys, in this order; a missing key raises.\<close>

definition build_prompt :: "row \<Rightarrow> exn + cell list" where
  "build_prompt contractor_data =
     (case contractor_data ''name'' of None \<Rightarrow> Inl KeyError | Some n \<Rightarrow>
      case contractor_data ''rating_stars'' of None \<Rightarrow> Inl KeyError | Some r \<Rightarrow>
      case contractor_data ''certifications'' of None \<Rightarrow> Inl KeyError | Some c \<Rightarrow>
      case contractor_data ''phone_number'' of None \<Rightarrow> Inl KeyError | Some p \<Rightarrow>
      case contractor_data ''about_section'' of None \<Rightarrow> Inl KeyError | Some a \<Rightarrow>
      Inr [n, r, c, p, a])"

definition api_text :: "http_outcome \<Rightarrow> string" where
  "api_text out =
     (case out of
        Transport_error \<Rightarrow> ''Error in API call''
      | Response status_code body \<Rightarrow>
          if status_code = 200
          then (case body of Some analysis \<Rightarrow> analysis | None \<Rightarrow> ''Error in API call'')
          else ''Error in API call'')"

text \<open>
  The prompt is built before the \<open>try\<close>, so its \<open>KeyError\<close> leaves the function; everything
  after the \<open>try\<close> returns a string.
\<close>

definition analyze_contractor_with_gpt :: "api \<Rightarrow> nat \<Rightarrow> row \<Rightarrow> (exn + string) \<times> event list" where
  "analyze_contractor_with_gpt service idx contractor_data =
     (case build_prompt contractor_data of
        Inl e \<Rightarrow> (Inl e, [])
      | Inr prompt \<Rightarrow> (Inr (api_text (service idx prompt)), [Post idx prompt]))"

text \<open>
  \<open>row.get('gpt_analysis') != 'N/A' and not pd.isna(row.get('gpt_analysis'))\<close>:
  \<open>row.get\<close> gives \<open>None\<close> for an absent key, and \<open>pd.isna\<close> holds of \<open>None\<close> and of NaN.
\<close>

definition already_processed :: "row \<Rightarrow> bool" where
  "already_processed r =
     (case r ''gpt_analysis'' of
        None \<Rightarrow> False
      | Some NaN \<Rightarrow> False
      | Some (Num x) \<Rightarrow> True
      | Some (Str s) \<Rightarrow> s \<noteq> ''N/A'')"

text \<open>
  One iteration of \<open>for idx, row in df.iterrows()\<close>. The state is the DataFrame and the
  events so far; \<open>n\<close> is \<open>len(df)\<close>. The inner \<open>except Exception\<close> logs the position
  \<open>idx+1\<close>, writes the file and goes on.
\<close>

definition gpt_step :: "api \<Rightarrow> nat \<Rightarrow> nat \<times> row \<Rightarrow> dataframe \<times> event list \<Rightarrow> dataframe \<times> event list" where
  "gpt_step service n ir st =
     (case ir of (idx, r) \<Rightarrow> case st of (df, tr) \<Rightarrow>
      (case r ''name'' of
         None \<Rightarrow> (df, tr @ [Log_error (idx + 1), To_csv df])
       | Some contractor_name \<Rightarrow>
           if already_processed r then (df, tr @ [Skip idx])
           else
             (case analyze_contractor_with_gpt service idx r of
                (Inl e, evs) \<Rightarrow> (df, tr @ evs @ [Log_error (idx + 1), To_csv df])
              | (Inr analysis, evs) \<Rightarrow>
                  let df' = df[idx := (df ! idx)(''gpt_analysis'' \<mapsto> Str analysis)]
                  in (df', tr @ evs
                        @ (if (idx + 1) mod 5 = 0 \<or> idx + 1 = n then [To_csv df'] else [])
                        @ [Sleep 1]))))"

text \<open>
  The whole function. Its argument is what \<open>pd.read_csv(input_file)\<close> yields: a DataFrame
  or an exception, which the outer handler prints. The column \<open>gpt_analysis\<close> is assigned
  \<open>'N/A'\<close> in every row before the loop; the rows the loop sees are those of that frame.
\<close>

definition reset_gpt :: "dataframe \<Rightarrow> dataframe" where
  "reset_gpt df = map (\<lambda>r. r(''gpt_analysis'' \<mapsto> Str ''N/A'')) df"

definition process_contractors_with_gpt :: "api \<Rightarrow> exn + dataframe \<Rightarrow> dataframe \<times> event list" where
  "process_contractors_with_gpt service input_file =
     (case input_file of
        Inl e \<Rightarrow> ([], [])
      | Inr df_in \<Rightarrow>
          let df0 = reset_gpt df_in;
              (df, tr) = fold (gpt_step service (length df0)) (enumerate 0 df0) (df0, [])
          in (df, tr @ [To_csv df]))"

subsection \<open>Vocabulary of the statements about the analysis stage\<close>

text \<open>The row the loop leaves behind for a record that was not skipped.\<close>

definition outcome_row :: "api \<Rightarrow> nat \<Rightarrow> row \<Rightarrow> row" where
  "outcome_row service i r =
     (case build_prompt r of
        Inl e \<Rightarrow> r
      | Inr p \<Rightarrow> r(''gpt_analysis'' \<mapsto> Str (api_text (service i p))))"

definition has_prompt_columns :: "row \<Rightarrow> bool" where
  "has_prompt_columns r =
     (r ''name'' \<noteq> None \<and> r ''rating_stars'' \<noteq> None \<and> r ''certifications'' \<noteq> None
      \<and> r ''phone_number'' \<noteq> None \<and> r ''about_section'' \<noteq> None)"

definition same_but_gpt :: "row \<Rightarrow> row \<Rightarrow> bool" where
  "same_but_gpt r1 r2 = (\<forall>k. k \<noteq> ''gpt_analysis'' \<longrightarrow> r1 k = r2 k)"

definition contractor_row :: row where
  "contractor_row =
     [''name'' \<mapsto> Str ''Acme Roofing'', ''page_link'' \<mapsto> Str ''https://example.com/acme'',
      ''rating_stars'' \<mapsto> Num 5, ''certifications'' \<mapsto> Str ''Master Elite'',
      ''phone_number'' \<mapsto> Str ''(555) 010-0000'', ''about_section'' \<mapsto> Str ''Family owned.'']"

definition fixed_service :: "string \<Rightarrow> api" where
  "fixed_service t = (\<lambda>i p. Response 200 (Some t))"

subsection \<open>Vocabulary of the statements about the listing navigator\<close>

text \<open>
  A navigation failure is an outcome one of the two handlers of \<open>safe_navigate\<close> takes:
  the listing wait timing out, or any \<open>WebDriverException\<close>.
\<close>

definition nav_failure :: "load_outcome \<Rightarrow> bool" where
  "nav_failure out =
     (case out of Loaded \<Rightarrow> False | Listing_timeout \<Rightarrow> True | Load_failed e \<Rightarrow> is_WebDriverException e)"

text \<open>
  What attempt \<open>i\<close> contributes to the run: the page load, followed by the back-off of 5
  exactly when the attempt failed and is not the last one allowed.
\<close>

definition attempt_events :: "(nat \<Rightarrow> load_outcome) \<Rightarrow> cell \<Rightarrow> nat \<Rightarrow> nat \<Rightarrow> event list" where
  "attempt_events browser url max_retries i =
     Get url # (if nav_failure (browser i) \<and> i + 1 < max_retries then [Sleep 5] else [])"

text \<open>A browser whose first three attempts fail, each in a different way.\<close>

definition flaky_browser :: "nat \<Rightarrow> load_outcome" where
  "flaky_browser i = (if i = 0 then Load_failed WebDriverException else if i = 1 then Listing_timeout
     else Load_failed TimeoutException)"

subsection \<open>Vocabulary of the statements about the checkpoints of the analysis stage\<close>

text \<open>
  The test that guards the write inside both loops, \<open>(idx + 1) % 5 == 0 or idx == len(df) - 1\<close>,
  and the frame as it stands once the records up to position \<open>j\<close> have been analysed.
\<close>

definition checkpoint :: "nat \<Rightarrow> nat \<Rightarrow> bool" where
  "checkpoint n idx = ((idx + 1) mod 5 = 0 \<or> idx + 1 = n)"

definition snapshot_after :: "api \<Rightarrow> dataframe \<Rightarrow> nat \<Rightarrow> dataframe" where
  "snapshot_after service df0 j =
     map (\<lambda>(i, r). outcome_row service i r) (enumerate 0 (take (Suc j) df0)) @ drop (Suc j) df0"

subsection \<open>Vocabulary of the statements about the two record processors\<close>

text \<open>
  A record the detail stage processes to the end: it has a name and a page link that is
  neither \<open>'N/A'\<close> nor false, and \<open>extract_about_section\<close> returns for it.
\<close>

definition visitable :: "web \<Rightarrow> nat \<Rightarrow> row \<Rightarrow> bool" where
  "visitable w i r =
     (r ''name'' \<noteq> None \<and>
      (case r ''page_link'' of
         None \<Rightarrow> False
       | Some link \<Rightarrow>
           link \<noteq> Str ''N/A'' \<and> truthy link \<and>
           (case fst (extract_about_section (record_site w i) link) of
              Inl e \<Rightarrow> False
            | Inr about_section \<Rightarrow> True)))"

text \<open>The row the detail loop leaves behind for such a record, and the frame after record \<open>j\<close>.\<close>

definition about_row :: "web \<Rightarrow> nat \<Rightarrow> row \<Rightarrow> row" where
  "about_row w i r =
     (case r ''page_link'' of
        None \<Rightarrow> r
      | Some link \<Rightarrow>
          (case fst (extract_about_section (record_site w i) link) of
             Inl e \<Rightarrow> r
           | Inr about_section \<Rightarrow> r(''about_section'' \<mapsto> Str about_section)))"

definition about_snapshot_after :: "web \<Rightarrow> dataframe \<Rightarrow> nat \<Rightarrow> dataframe" where
  "about_snapshot_after w df0 j =
     map (\<lambda>(i, r). about_row w i r) (enumerate 0 (take (Suc j) df0)) @ drop (Suc j) df0"

text \<open>
  Concrete worlds: a contractor page with an about paragraph, a site that loads at the first
  attempt, a site whose load raises an exception outside \<open>WebDriverException\<close> (a lost
  browser session), and the detail-stage worlds built from them; a service that answers
  HTTP 500 to the first record.
\<close>

definition plain_page :: page where
  "plain_page =
     \<lparr>about_element = Inr \<lparr>elem_text = Inr ''Family owned since 1990.'', elem_attr = (\<lambda>a. Inr None)\<rparr>,
      sections = Inr [], all_paragraphs = Inr []\<rparr>"

definition steady_site :: site where
  "steady_site = \<lparr>loads = (\<lambda>i. None), shown = plain_page\<rparr>"

definition broken_site :: site where
  "broken_site = \<lparr>loads = (\<lambda>i. Some OtherException), shown = plain_page\<rparr>"

definition steady_web :: web where
  "steady_web =
     \<lparr>setup_driver = None, first_site = steady_site, cookie_banner = False,
      record_site = (\<lambda>i. steady_site)\<rparr>"

definition broken_web :: web where
  "broken_web =
     \<lparr>setup_driver = None, first_site = steady_site, cookie_banner = False,
      record_site = (\<lambda>i. if i = 0 then broken_site else steady_site)\<rparr>"

definition failing_service :: api where
  "failing_service = (\<lambda>i p. if i = 0 then Response 500 None else Response 200 (Some ''SUMMARY: ok''))"

text \<open>Whether an event is a write of the row-store.\<close>

fun is_save :: "event \<Rightarrow> bool" where
  "is_save (To_csv d) = True"
| "is_save e = False"

subsection \<open>Vocabulary of the statements about one listing item\<close>

text \<open>
  What the comprehension and the join of the certifications block compute from the texts
  \<open>safe_get_text\<close> returns for the matched elements: the texts different from \<open>'N/A'\<close>
  joined by \<open>", "\<close>, or \<open>'N/A'\<close> when none is left. A text that is empty but not
  \<open>'N/A'\<close> is kept.
\<close>

definition stored_certifications :: "string list \<Rightarrow> string" where
  "stored_certifications ts =
     (if filter (\<lambda>t. t \<noteq> ''N/A'') ts = [] then ''N/A''
      else join '', '' (filter (\<lambda>t. t \<noteq> ''N/A'') ts))"

text \<open>
  Concrete page content: an element with a given text and no attributes, a link with an
  \<open>href\<close>, and a listing item with given certification texts and phone text.
\<close>

definition text_element :: "string \<Rightarrow> element" where
  "text_element t = \<lparr>elem_text = Inr t, elem_attr = (\<lambda>a. Inr None)\<rparr>"

definition link_to :: "string \<Rightarrow> element" where
  "link_to url = \<lparr>elem_text = Inr ''Acme Roofing'', elem_attr = (\<lambda>a. if a = ''href'' then Inr (Some url) else Inr None)\<rparr>"

definition listing_item :: "string list \<Rightarrow> string \<Rightarrow> item" where
  "listing_item certs phone =
     \<lparr>name_element = Inr (text_element ''Acme Roofing''),
      link_element = Inr (link_to ''https://example.com/acme''),
      stars_element = Inr (text_element ''4.8''),
      cert_elements = Inr (map text_element certs),
      phone_element = Inr (text_element phone),
      tel_element = Inl NoSuchElementException\<rparr>"

subsection \<open>Vocabulary of the statements about the about extractor\<close>

text \<open>
  An element is readable when \<open>safe_get_text\<close> returns for it; \<open>text_of\<close> is then its text.
  A heading matches when its text, in lower case, contains \<open>about\<close>.
\<close>

definition readable :: "element \<Rightarrow> bool" where
  "readable el = (case safe_get_text el of Inl e \<Rightarrow> False | Inr t \<Rightarrow> True)"

definition text_of :: "element \<Rightarrow> string" where
  "text_of el = (case safe_get_text el of Inl e \<Rightarrow> ''N/A'' | Inr t \<Rightarrow> t)"

definition heading_matches :: "element \<Rightarrow> bool" where
  "heading_matches h = (case safe_get_text h of Inl e \<Rightarrow> False | Inr t \<Rightarrow> contains ''about'' (lower t))"

text \<open>
  A section has an about heading when one of its headings matches. It is a well-formed
  about section when moreover its headings and paragraphs can all be read and it has at
  least one paragraph; its joined paragraph text is the texts of its paragraphs joined by
  newlines.
\<close>

definition has_about_heading :: "section_element \<Rightarrow> bool" where
  "has_about_heading sec = (case headings sec of Inl e \<Rightarrow> False | Inr hs \<Rightarrow> list_ex heading_matches hs)"

definition about_section_ok :: "section_element \<Rightarrow> bool" where
  "about_section_ok sec =
     (case headings sec of
        Inl e \<Rightarrow> False
      | Inr hs \<Rightarrow>
          list_all readable hs \<and> list_ex heading_matches hs \<and>
          (case paragraphs sec of
             Inl e \<Rightarrow> False
           | Inr ps \<Rightarrow> ps \<noteq> [] \<and> list_all readable ps))"

definition joined_paragraphs :: "section_element \<Rightarrow> string" where
  "joined_paragraphs sec =
     (case paragraphs sec of Inl e \<Rightarrow> [] | Inr ps \<Rightarrow> join [CHR 0x0A] (map text_of ps))"

text \<open>
  The test of the paragraph scan: longer than 100 characters and containing \<open>about\<close> or
  \<open>our company\<close> in lower case. \<open>loads_page\<close>: the navigation to the URL succeeds.
\<close>

definition long_keyword :: "string \<Rightarrow> bool" where
  "long_keyword t =
     (length t > 100 \<and> (contains ''about'' (lower t) \<or> contains ''our company'' (lower t)))"

definition loads_page :: "site \<Rightarrow> cell \<Rightarrow> bool" where
  "loads_page driver url = (fst (safe_navigate_detail (loads driver) url 3) = Inr True)"

text \<open>
  Two concrete contractor pages without the canonical about element: one with a section
  headed \<open>About Us\<close> after a section headed \<open>Services\<close>, one with no such heading and a
  long paragraph that names \<open>our company\<close>.
\<close>

definition services_section :: section_element where
  "services_section =
     \<lparr>headings = Inr [text_element ''Services''], paragraphs = Inr [text_element ''Roof repair.'']\<rparr>"

definition about_us_section :: section_element where
  "about_us_section =
     \<lparr>headings = Inr [text_element ''About Us''],
      paragraphs = Inr [text_element ''We roof.'', text_element ''Since 1990.'']\<rparr>"

definition company_text :: string where
  "company_text = ''Our company has served homeowners across the region for over thirty years with quality roofing and repairs.''"

definition heading_page :: page where
  "heading_page =
     \<lparr>about_element = Inl NoSuchElementException,
      sections = Inr [services_section, about_us_section],
      all_paragraphs = Inr [text_element ''Roof repair.'', text_element ''We roof.'',
                            text_element ''Since 1990.'', text_element company_text]\<rparr>"

definition paragraph_page :: page where
  "paragraph_page =
     \<lparr>about_element = Inl NoSuchElementException,
      sections = Inr [services_section],
      all_paragraphs = Inr [text_element ''Roof repair.'', text_element company_text]\<rparr>"

definition heading_site :: site where
  "heading_site = \<lparr>loads = (\<lambda>i. None), shown = heading_page\<rparr>"

definition paragraph_site :: site where
  "paragraph_site = \<lparr>loads = (\<lambda>i. None), shown = paragraph_page\<rparr>"

subsection \<open>Vocabulary of the statements about the pagination walker\<close>

text \<open>
  A listing page ends the pagination when it yields no listing item, when none of the three
  lookups finds a next button, or when the button found carries \<open>disabled = "true"\<close>.
\<close>

definition terminal :: "listing_page \<Rightarrow> bool" where
  "terminal pg =
     (wait_and_find_elements (contractor_items pg) = Inr []
      \<or> find_next_button pg = Inr None
      \<or> (case find_next_button pg of
            Inr (Some b) \<Rightarrow> safe_get_attribute b ''disabled'' = Inr (Some ''true'')
          | _ \<Rightarrow> False))"

text \<open>The walker goes on from page \<open>c\<close> exactly when every condition on the way to the increment holds.\<close>

definition advances :: "(nat \<Rightarrow> listing_page) \<Rightarrow> nat \<Rightarrow> nat \<Rightarrow> bool" where
  "advances site n c =
     (c < n
      \<and> (case wait_and_find_elements (contractor_items (site c)) of
            Inl e \<Rightarrow> False | Inr its \<Rightarrow> its \<noteq> [])
      \<and> (case find_next_button (site c) of
            Inr (Some b) \<Rightarrow>
              (case safe_get_attribute b ''disabled'' of
                 Inl e \<Rightarrow> False | Inr dis \<Rightarrow> dis \<noteq> Some ''true'')
          | _ \<Rightarrow> False)
      \<and> click_script (site c) = None \<and> listing_wait (site c) = None)"

text \<open>
  The listing pages the walker brings up: the base page once the navigation to it
  succeeded, and one more for every click on the next button. (The attempts the navigation
  itself makes are counted by \<open>gets\<close>.)
\<close>

definition page_loads :: "listing_site \<Rightarrow> cell \<Rightarrow> nat \<Rightarrow> nat" where
  "page_loads driver base_url max_pages =
     (if fst (safe_navigate (base_loads driver) base_url 3) = Inr True then 1 else 0)
     + clicks (snd (scrape_contractor_info driver base_url max_pages))"

text \<open>
  Concrete listing pages: a next button with \<open>disabled = "true"\<close>, a page with given items
  and a given result of the first next-button lookup (the other two finding nothing), and
  the site that loads at once and shows that page at every position.
\<close>

definition disabled_button :: element where
  "disabled_button =
     \<lparr>elem_text = Inr ''Next'',
      elem_attr = (\<lambda>a. if a = ''disabled'' then Inr (Some ''true'') else Inr None)\<rparr>"

definition listing_with :: "item list \<Rightarrow> exn + element \<Rightarrow> listing_page" where
  "listing_with its next_button =
     \<lparr>contractor_items = Inr its, next_nth9 = next_button,
      next_nth8 = Inl NoSuchElementException, next_aria = Inl NoSuchElementException,
      click_script = None, listing_wait = None\<rparr>"

definition site_of :: "listing_page \<Rightarrow> listing_site" where
  "site_of pg = \<lparr>base_loads = (\<lambda>i. Loaded), pages = (\<lambda>k. pg)\<rparr>"


subsection \<open>Vocabulary of the exact statement about the about extractor\<close>

text \<open>
  The heading loop reaches a heading containing \<open>about\<close> when, reading the headings in
  order, one matches before any fails to be read. A section yields when that happens and its
  paragraph lookup returns at least one paragraph, all of which can be read: then, and only
  then, the loop over the sections returns at this section.
\<close>

fun reaches_about :: "element list \<Rightarrow> bool" where
  "reaches_about [] = False"
| "reaches_about (h # hs) =
     (case safe_get_text h of
        Inl e \<Rightarrow> False
      | Inr t \<Rightarrow> contains ''about'' (lower t) \<or> reaches_about hs)"

definition section_yields :: "section_element \<Rightarrow> bool" where
  "section_yields sec =
     (case headings sec of
        Inl e \<Rightarrow> False
      | Inr hs \<Rightarrow>
          reaches_about hs \<and>
          (case paragraphs sec of
             Inl e \<Rightarrow> False
           | Inr ps \<Rightarrow> ps \<noteq> [] \<and> list_all readable ps))"

definition paragraphs_usable :: "section_element \<Rightarrow> bool" where
  "paragraphs_usable sec =
     (case paragraphs sec of Inl e \<Rightarrow> False | Inr ps \<Rightarrow> ps \<noteq> [] \<and> list_all readable ps)"

text \<open>
  More concrete pages: a section headed \<open>About\<close> without paragraphs, a section headed
  \<open>ABOUT\<close> whose only paragraph is empty, a page where the former precedes a well-formed
  about section, and a page with the latter and a long paragraph naming \<open>our company\<close>.
\<close>

definition empty_about_section :: section_element where
  "empty_about_section = \<lparr>headings = Inr [text_element ''About''], paragraphs = Inr []\<rparr>"

definition blank_about_section :: section_element where
  "blank_about_section =
     \<lparr>headings = Inr [text_element ''ABOUT''], paragraphs = Inr [text_element []]\<rparr>"

definition skipping_site :: site where
  "skipping_site =
     \<lparr>loads = (\<lambda>i. None),
      shown = \<lparr>about_element = Inl NoSuchElementException,
               sections = Inr [services_section, empty_about_section, about_us_section],
               all_paragraphs = Inr [text_element company_text]\<rparr>\<rparr>"

definition sentinel_site :: site where
  "sentinel_site =
     \<lparr>loads = (\<lambda>i. None),
      shown = \<lparr>about_element = Inl NoSuchElementException,
               sections = Inr [blank_about_section],
               all_paragraphs = Inr [text_element [], text_element company_text]\<rparr>\<rparr>"

section \<open>Properties of the analysis stage\<close>

lemma build_prompt_error: "build_prompt r = Inl e \<Longrightarrow> e = KeyError"
  by (auto simp: build_prompt_def split: option.splits)

lemma build_prompt_name: "r ''name'' = None \<Longrightarrow> build_prompt r = Inl KeyError"
  by (simp add: build_prompt_def)

lemma build_prompt_reset [simp]:
  "build_prompt (r(''gpt_analysis'' \<mapsto> v)) = build_prompt r"
  by (simp add: build_prompt_def split: option.splits)

lemma already_processed_reset [simp]:
  "\<not> already_processed (r(''gpt_analysis'' \<mapsto> Str ''N/A''))"
  by (simp add: already_processed_def)

lemma gpt_step_fresh:
  assumes "\<not> already_processed r"
  shows "gpt_step service n (idx, r) (df, tr) =
     (case build_prompt r of
        Inl e \<Rightarrow> (df, tr @ [Log_error (idx + 1), To_csv df])
      | Inr p \<Rightarrow>
          (df[idx := (df ! idx)(''gpt_analysis'' \<mapsto> Str (api_text (service idx p)))],
           tr @ [Post idx p]
             @ (if (idx + 1) mod 5 = 0 \<or> idx + 1 = n
                then [To_csv (df[idx := (df ! idx)(''gpt_analysis'' \<mapsto> Str (api_text (service idx p)))])]
                else [])
             @ [Sleep 1]))"
  using assms
  by (auto simp: gpt_step_def analyze_contractor_with_gpt_def Let_def build_prompt_name
      split: option.splits sum.splits dest: build_prompt_error)

lemma gpt_loop_frame:
  assumes "\<forall>r\<in>set rows. \<not> already_processed r" and "length pre = k"
  shows "fst (fold (gpt_step service n) (enumerate k rows) (pre @ rows, tr)) =
         pre @ map (\<lambda>(i, r). outcome_row service i r) (enumerate k rows)"
  using assms
proof (induction rows arbitrary: pre k tr)
  case Nil
  then show ?case by simp
next
  case (Cons r rows)
  have np: "\<not> already_processed r" using Cons.prems by simp
  show ?case
  proof (cases "build_prompt r")
    case (Inl e)
    have "fold (gpt_step service n) (enumerate k (r # rows)) (pre @ r # rows, tr) =
          fold (gpt_step service n) (enumerate (Suc k) rows) ((pre @ [r]) @ rows, tr @ [Log_error (k + 1), To_csv (pre @ r # rows)])"
      using Inl by (simp add: gpt_step_fresh [OF np])
    then show ?thesis
      using Cons.IH [of "pre @ [r]" "Suc k"] Cons.prems Inl
      by (simp add: outcome_row_def)
  next
    case (Inr p)
    let ?r' = "r(''gpt_analysis'' \<mapsto> Str (api_text (service k p)))"
    have upd: "(pre @ r # rows)[k := ((pre @ r # rows) ! k)(''gpt_analysis'' \<mapsto> Str (api_text (service k p)))] = (pre @ [?r']) @ rows"
      using Cons.prems(2) by (simp add: list_update_append nth_append)
    have "fst (gpt_step service n (k, r) (pre @ r # rows, tr)) = (pre @ [?r']) @ rows"
      using Inr upd by (simp add: gpt_step_fresh [OF np])
    then obtain tr' where "gpt_step service n (k, r) (pre @ r # rows, tr) = ((pre @ [?r']) @ rows, tr')"
      by (cases "gpt_step service n (k, r) (pre @ r # rows, tr)") simp
    then have "fold (gpt_step service n) (enumerate k (r # rows)) (pre @ r # rows, tr) =
          fold (gpt_step service n) (enumerate (Suc k) rows) ((pre @ [?r']) @ rows, tr')"
      by simp
    then show ?thesis
      using Cons.IH [of "pre @ [?r']" "Suc k" tr'] Cons.prems Inr
      by (simp add: outcome_row_def)
  qed
qed

lemma posts_append [simp]: "posts (xs @ ys) = posts xs @ posts ys"
  by (induction xs rule: posts.induct) simp_all

lemma skips_append [simp]: "skips (xs @ ys) = skips xs @ skips ys"
  by (induction xs rule: skips.induct) simp_all

lemma saves_append [simp]: "saves (xs @ ys) = saves xs @ saves ys"
  by (induction xs rule: saves.induct) simp_all

lemma gpt_loop_skips:
  assumes "\<forall>r\<in>set rows. \<not> already_processed r"
  shows "skips (snd (fold (gpt_step service n) (enumerate k rows) (df, tr))) = skips tr"
  using assms
proof (induction rows arbitrary: df k tr)
  case Nil
  then show ?case by simp
next
  case (Cons r rows)
  have np: "\<not> already_processed r" using Cons.prems by simp
  obtain df' tr' where st: "gpt_step service n (k, r) (df, tr) = (df', tr')" by fastforce
  have "skips tr' = skips tr"
    using st by (auto simp: gpt_step_fresh [OF np] split: sum.splits if_splits)
  then show ?case using Cons st by simp
qed

lemma gpt_loop_posts:
  assumes "\<forall>r\<in>set rows. \<not> already_processed r \<and> (\<exists>p. build_prompt r = Inr p)"
  shows "posts (snd (fold (gpt_step service n) (enumerate k rows) (df, tr))) = posts tr @ [k..<k + length rows]"
  using assms
proof (induction rows arbitrary: df k tr)
  case Nil
  then show ?case by simp
next
  case (Cons r rows)
  have np: "\<not> already_processed r" using Cons.prems by simp
  obtain p where p: "build_prompt r = Inr p" using Cons.prems by auto
  obtain df' tr' where st: "gpt_step service n (k, r) (df, tr) = (df', tr')" by fastforce
  have "posts tr' = posts tr @ [k]"
    using st by (auto simp: gpt_step_fresh [OF np] p split: if_splits)
  moreover have "[k..<k + length (r # rows)] = k # [Suc k..<Suc k + length rows]"
    by (subst upt_rec) simp
  ultimately show ?case using Cons.IH [of "Suc k" df' tr'] Cons.prems st by simp
qed

lemma has_prompt_columns_build: "has_prompt_columns r \<Longrightarrow> \<exists>p. build_prompt r = Inr p"
  by (auto simp: has_prompt_columns_def build_prompt_def)

lemma reset_gpt_same:
  assumes "list_all2 same_but_gpt df1 df2"
  shows "reset_gpt df1 = reset_gpt df2"
  using assms
proof (induction rule: list_all2_induct)
  case Nil
  then show ?case by (simp add: reset_gpt_def)
next
  case (Cons r1 df1 r2 df2)
  have "r1(''gpt_analysis'' \<mapsto> Str ''N/A'') = r2(''gpt_analysis'' \<mapsto> Str ''N/A'')"
    using Cons.hyps(1) by (auto simp: same_but_gpt_def fun_eq_iff)
  then show ?case using Cons.IH by (simp add: reset_gpt_def)
qed

lemma reset_gpt_fresh: "\<forall>r\<in>set (reset_gpt df). \<not> already_processed r"
  by (auto simp: reset_gpt_def)

lemma reset_gpt_build:
  "\<forall>r\<in>set df. has_prompt_columns r \<Longrightarrow>
   \<forall>r\<in>set (reset_gpt df). \<not> already_processed r \<and> (\<exists>p. build_prompt r = Inr p)"
  by (auto simp: reset_gpt_def dest: has_prompt_columns_build)

lemma length_reset_gpt [simp]: "length (reset_gpt df) = length df"
  by (simp add: reset_gpt_def)

lemma process_gpt_fst:
  "fst (process_contractors_with_gpt service (Inr df)) =
   fst (fold (gpt_step service (length df)) (enumerate 0 (reset_gpt df)) (reset_gpt df, []))"
  by (simp add: process_contractors_with_gpt_def Let_def reset_gpt_def split: prod.splits)

lemma process_gpt_snd:
  "snd (process_contractors_with_gpt service (Inr df)) =
   snd (fold (gpt_step service (length df)) (enumerate 0 (reset_gpt df)) (reset_gpt df, []))
   @ [To_csv (fst (fold (gpt_step service (length df)) (enumerate 0 (reset_gpt df)) (reset_gpt df, [])))]"
  by (simp add: process_contractors_with_gpt_def Let_def reset_gpt_def split: prod.splits)

lemma process_gpt_skips: "skips (snd (process_contractors_with_gpt service (Inr df))) = []"
  by (simp add: process_gpt_snd gpt_loop_skips [OF reset_gpt_fresh])

lemma process_gpt_posts:
  assumes "\<forall>r\<in>set df. has_prompt_columns r"
  shows "posts (snd (process_contractors_with_gpt service (Inr df))) = [0..<length df]"
  by (simp add: process_gpt_snd gpt_loop_posts [OF reset_gpt_build [OF assms]])

lemma process_gpt_frame:
  "fst (process_contractors_with_gpt service (Inr df)) =
   map (\<lambda>(i, r). outcome_row service i r) (enumerate 0 (reset_gpt df))"
proof -
  have "fst (fold (gpt_step service (length df)) (enumerate 0 (reset_gpt df)) ([] @ reset_gpt df, [])) =
        [] @ map (\<lambda>(i, r). outcome_row service i r) (enumerate 0 (reset_gpt df))"
    by (rule gpt_loop_frame [OF reset_gpt_fresh]) simp
  then show ?thesis by (simp add: process_gpt_fst)
qed

text \<open>
  Claim C10. The assignment \<open>df['gpt_analysis'] = 'N/A'\<close> comes right after the read and
  before the loop, so a column \<open>gpt_analysis\<close> already in the input file has no effect:
  two input frames that agree on every other column give the same final frame and the same
  events; no record is ever skipped as already processed; and when every row carries the
  five columns the prompt reads, exactly one request goes out for every record, in order.
\<close>

theorem gpt_column_reset:
  "(list_all2 same_but_gpt df1 df2 \<longrightarrow>
      process_contractors_with_gpt service (Inr df1) = process_contractors_with_gpt service (Inr df2))
   \<and> skips (snd (process_contractors_with_gpt service (Inr df1))) = []
   \<and> ((\<forall>r\<in>set df1. has_prompt_columns r) \<longrightarrow>
      posts (snd (process_contractors_with_gpt service (Inr df1))) = [0..<length df1])"
  using reset_gpt_same [of df1 df2] process_gpt_skips [of service df1] process_gpt_posts [of df1 service]
  by (auto simp: process_contractors_with_gpt_def)

lemma has_prompt_columns_contractor_row [simp]: "has_prompt_columns contractor_row"
  by (simp add: has_prompt_columns_def contractor_row_def)

lemma has_prompt_columns_upd [simp]:
  "has_prompt_columns r \<Longrightarrow> has_prompt_columns (r(''gpt_analysis'' \<mapsto> v))"
  by (simp add: has_prompt_columns_def)

theorem gpt_column_reset_witness:
  "list_all2 same_but_gpt [contractor_row(''gpt_analysis'' \<mapsto> Str ''SUMMARY: solid'')] [contractor_row]
   \<and> list_all has_prompt_columns [contractor_row(''gpt_analysis'' \<mapsto> Str ''SUMMARY: solid'')]
   \<and> process_contractors_with_gpt (fixed_service ''x'') (Inr [contractor_row(''gpt_analysis'' \<mapsto> Str ''SUMMARY: solid'')])
       = process_contractors_with_gpt (fixed_service ''x'') (Inr [contractor_row])
   \<and> posts (snd (process_contractors_with_gpt (fixed_service ''x'')
         (Inr [contractor_row(''gpt_analysis'' \<mapsto> Str ''SUMMARY: solid'')]))) = [0]"
proof -
  have h1: "list_all2 same_but_gpt [contractor_row(''gpt_analysis'' \<mapsto> Str ''SUMMARY: solid'')] [contractor_row]"
    by (simp add: same_but_gpt_def)
  have h2: "\<forall>r\<in>set [contractor_row(''gpt_analysis'' \<mapsto> Str ''SUMMARY: solid'')]. has_prompt_columns r"
    by simp
  note t = gpt_column_reset [of "[contractor_row(''gpt_analysis'' \<mapsto> Str ''SUMMARY: solid'')]"
        "[contractor_row]" "fixed_service ''x''"]
  from t h1 have a: "process_contractors_with_gpt (fixed_service ''x'') (Inr [contractor_row(''gpt_analysis'' \<mapsto> Str ''SUMMARY: solid'')])
       = process_contractors_with_gpt (fixed_service ''x'') (Inr [contractor_row])"
    by blast
  from t h2 have "posts (snd (process_contractors_with_gpt (fixed_service ''x'')
         (Inr [contractor_row(''gpt_analysis'' \<mapsto> Str ''SUMMARY: solid'')])))
       = [0..<length [contractor_row(''gpt_analysis'' \<mapsto> Str ''SUMMARY: solid'')]]"
    by blast
  then have b: "posts (snd (process_contractors_with_gpt (fixed_service ''x'')
         (Inr [contractor_row(''gpt_analysis'' \<mapsto> Str ''SUMMARY: solid'')]))) = [0]"
    by simp
  have h2': "list_all has_prompt_columns [contractor_row(''gpt_analysis'' \<mapsto> Str ''SUMMARY: solid'')]"
    by simp
  show ?thesis using h1 h2' a b by blast
qed

text \<open>
  Claim C1. A second run on the frame a completed first run produced: the record's
  \<open>gpt_analysis\<close> holds an analysis (it is already processed by the loop's own test), yet
  the second run posts the record again, skips nothing, and stores whatever the service
  answers this time over the earlier analysis.
\<close>

theorem gpt_second_run_reinvokes:
  "posts (snd (process_contractors_with_gpt (fixed_service ''SUMMARY: solid'') (Inr [contractor_row]))) = [0]
   \<and> (fst (process_contractors_with_gpt (fixed_service ''SUMMARY: solid'') (Inr [contractor_row])) ! 0) ''gpt_analysis''
       = Some (Str ''SUMMARY: solid'')
   \<and> already_processed (fst (process_contractors_with_gpt (fixed_service ''SUMMARY: solid'') (Inr [contractor_row])) ! 0)
   \<and> posts (snd (process_contractors_with_gpt (fixed_service ''SUMMARY: solid'')
        (Inr (fst (process_contractors_with_gpt (fixed_service ''SUMMARY: solid'') (Inr [contractor_row])))))) = [0]
   \<and> skips (snd (process_contractors_with_gpt (fixed_service ''SUMMARY: solid'')
        (Inr (fst (process_contractors_with_gpt (fixed_service ''SUMMARY: solid'') (Inr [contractor_row])))))) = []
   \<and> (fst (process_contractors_with_gpt (fixed_service ''Error in API call'')
        (Inr (fst (process_contractors_with_gpt (fixed_service ''SUMMARY: solid'') (Inr [contractor_row]))))) ! 0) ''gpt_analysis''
       = Some (Str ''Error in API call'')"
  by (simp add: process_gpt_frame process_gpt_posts process_gpt_skips reset_gpt_def outcome_row_def
      already_processed_def has_prompt_columns_def
      fixed_service_def api_text_def build_prompt_def contractor_row_def)

section \<open>Properties of the listing navigator\<close>

lemma gets_append [simp]: "gets (xs @ ys) = gets xs @ gets ys"
  by (induction xs rule: gets.induct) simp_all

lemma snf_done:
  "\<not> attempt < m \<Longrightarrow> safe_navigate_from b u m attempt = (Inr False, [])"
  by (subst safe_navigate_from.simps) simp

lemma snf_loaded:
  "attempt < m \<Longrightarrow> b attempt = Loaded \<Longrightarrow> safe_navigate_from b u m attempt = (Inr True, [Get u])"
  by (subst safe_navigate_from.simps) simp

lemma snf_timeout:
  "attempt < m \<Longrightarrow> b attempt = Listing_timeout \<Longrightarrow>
   safe_navigate_from b u m attempt =
     (fst (safe_navigate_from b u m (Suc attempt)),
      Get u # (if attempt + 1 < m then [Sleep 5] else []) @ snd (safe_navigate_from b u m (Suc attempt)))"
  by (subst safe_navigate_from.simps) (simp split: prod.splits)

lemma snf_retry:
  "attempt + 1 < m \<Longrightarrow> b attempt = Load_failed e \<Longrightarrow> is_WebDriverException e \<Longrightarrow>
   safe_navigate_from b u m attempt =
     (fst (safe_navigate_from b u m (Suc attempt)),
      Get u # Sleep 5 # snd (safe_navigate_from b u m (Suc attempt)))"
  by (subst safe_navigate_from.simps) (simp split: prod.splits)

lemma snf_last:
  "attempt < m \<Longrightarrow> \<not> attempt + 1 < m \<Longrightarrow> b attempt = Load_failed e \<Longrightarrow> is_WebDriverException e \<Longrightarrow>
   safe_navigate_from b u m attempt = (Inr False, [Get u])"
  by (subst safe_navigate_from.simps) simp

lemma snf_foreign:
  "attempt < m \<Longrightarrow> b attempt = Load_failed e \<Longrightarrow> \<not> is_WebDriverException e \<Longrightarrow>
   safe_navigate_from b u m attempt = (Inl e, [Get u])"
  by (subst safe_navigate_from.simps) simp

lemma all_from_split:
  "a < m \<Longrightarrow> (\<forall>i. a \<le> i \<and> i < m \<longrightarrow> P i) = (P a \<and> (\<forall>i. Suc a \<le> i \<and> i < m \<longrightarrow> P i))"
proof -
  assume am: "a < m"
  show ?thesis
  proof
    assume h: "\<forall>i. a \<le> i \<and> i < m \<longrightarrow> P i"
    show "P a \<and> (\<forall>i. Suc a \<le> i \<and> i < m \<longrightarrow> P i)"
      using h am by (simp add: Suc_le_eq)
  next
    assume h: "P a \<and> (\<forall>i. Suc a \<le> i \<and> i < m \<longrightarrow> P i)"
    show "\<forall>i. a \<le> i \<and> i < m \<longrightarrow> P i"
    proof (intro allI impI)
      fix i assume i: "a \<le> i \<and> i < m"
      show "P i"
      proof (cases "i = a")
        case True
        then show ?thesis using h by simp
      next
        case False
        then have "Suc a \<le> i" using i by simp
        then show ?thesis using h i by blast
      qed
    qed
  qed
qed

lemma safe_navigate_from_gets:
  "length (gets (snd (safe_navigate_from b u m attempt))) \<le> m - attempt"
proof (induction "m - attempt" arbitrary: attempt)
  case 0
  then show ?case by (simp add: snf_done)
next
  case (Suc k)
  then have lt: "attempt < m" and k: "k = m - Suc attempt" by simp_all
  have ih: "length (gets (snd (safe_navigate_from b u m (Suc attempt)))) \<le> m - Suc attempt"
    using Suc.hyps(1) [OF k] .
  show ?case
  proof (cases "b attempt")
    case Loaded
    then show ?thesis using lt by (simp add: snf_loaded)
  next
    case Listing_timeout
    then show ?thesis using lt ih by (simp add: snf_timeout)
  next
    case (Load_failed e)
    show ?thesis
    proof (cases "is_WebDriverException e")
      case False
      then show ?thesis using lt Load_failed by (simp add: snf_foreign)
    next
      case True
      show ?thesis
      proof (cases "attempt + 1 < m")
        case True
        then show ?thesis using \<open>is_WebDriverException e\<close> Load_failed ih
          by (simp add: snf_retry)
      next
        case False
        then show ?thesis using lt \<open>is_WebDriverException e\<close> Load_failed
          by (simp add: snf_last)
      qed
    qed
  qed
qed

lemma safe_navigate_from_False:
  "(fst (safe_navigate_from b u m attempt) = Inr False) =
   (\<forall>i. attempt \<le> i \<and> i < m \<longrightarrow> nav_failure (b i))"
proof (induction "m - attempt" arbitrary: attempt)
  case 0
  then show ?case by (auto simp: snf_done)
next
  case (Suc k)
  then have lt: "attempt < m" and k: "k = m - Suc attempt" by simp_all
  note ih = Suc.hyps(1) [OF k]
  note sp = all_from_split [OF lt, of "\<lambda>i. nav_failure (b i)"]
  show ?case
  proof (cases "b attempt")
    case Loaded
    then have "\<not> nav_failure (b attempt)" by (simp add: nav_failure_def)
    then show ?thesis unfolding sp using lt Loaded by (simp add: snf_loaded)
  next
    case Listing_timeout
    then have "nav_failure (b attempt)" by (simp add: nav_failure_def)
    then show ?thesis unfolding sp using lt Listing_timeout ih by (simp add: snf_timeout)
  next
    case (Load_failed e)
    show ?thesis
    proof (cases "is_WebDriverException e")
      case False
      then have "\<not> nav_failure (b attempt)" using Load_failed by (simp add: nav_failure_def)
      then show ?thesis unfolding sp using lt Load_failed False by (simp add: snf_foreign)
    next
      case True
      then have nf: "nav_failure (b attempt)" using Load_failed by (simp add: nav_failure_def)
      show ?thesis
      proof (cases "attempt + 1 < m")
        case retry: True
        show ?thesis unfolding sp using nf retry True Load_failed ih by (simp add: snf_retry)
      next
        case False
        then have "\<forall>i. Suc attempt \<le> i \<and> i < m \<longrightarrow> nav_failure (b i)" by auto
        then show ?thesis unfolding sp using nf lt False True Load_failed by (simp add: snf_last)
      qed
    qed
  qed
qed

lemma upt_from_Suc: "[a..<a + Suc n] = a # [Suc a..<Suc a + n]"
  by (subst upt_rec) simp

lemma trace_step:
  assumes tr: "T = f attempt @ R"
    and len: "length (gets T) = Suc (length (gets R))"
    and ih: "R = concat (map f [Suc attempt..<Suc attempt + length (gets R)])"
  shows "T = concat (map f [attempt..<attempt + length (gets T)])"
proof -
  have "concat (map f [attempt..<attempt + length (gets T)]) =
        concat (map f (attempt # [Suc attempt..<Suc attempt + length (gets R)]))"
    by (simp only: len upt_from_Suc)
  also have "\<dots> = f attempt @ concat (map f [Suc attempt..<Suc attempt + length (gets R)])"
    by simp
  also have "\<dots> = f attempt @ R"
    by (simp only: ih [symmetric])
  finally show ?thesis using tr by simp
qed

lemma safe_navigate_from_trace:
  "snd (safe_navigate_from b u m attempt) =
   concat (map (attempt_events b u m)
     [attempt..<attempt + length (gets (snd (safe_navigate_from b u m attempt)))])"
proof (induction "m - attempt" arbitrary: attempt)
  case 0
  then show ?case by (simp add: snf_done)
next
  case (Suc k)
  then have lt: "attempt < m" and k: "k = m - Suc attempt" by simp_all
  note ih = Suc.hyps(1) [OF k]
  show ?case
  proof (cases "b attempt")
    case Loaded
    then show ?thesis using lt by (simp add: snf_loaded attempt_events_def nav_failure_def)
  next
    case Listing_timeout
    have "snd (safe_navigate_from b u m attempt) =
          attempt_events b u m attempt @ snd (safe_navigate_from b u m (Suc attempt))"
      using lt Listing_timeout by (simp add: snf_timeout attempt_events_def nav_failure_def)
    moreover have "length (gets (snd (safe_navigate_from b u m attempt))) =
          Suc (length (gets (snd (safe_navigate_from b u m (Suc attempt)))))"
      using lt Listing_timeout by (simp add: snf_timeout)
    ultimately show ?thesis using ih by (rule trace_step)
  next
    case (Load_failed e)
    show ?thesis
    proof (cases "is_WebDriverException e")
      case False
      then show ?thesis using lt Load_failed
        by (simp add: snf_foreign attempt_events_def nav_failure_def)
    next
      case True
      show ?thesis
      proof (cases "attempt + 1 < m")
        case retry: True
        have "snd (safe_navigate_from b u m attempt) =
              attempt_events b u m attempt @ snd (safe_navigate_from b u m (Suc attempt))"
          using retry True Load_failed by (simp add: snf_retry attempt_events_def nav_failure_def)
        moreover have "length (gets (snd (safe_navigate_from b u m attempt))) =
              Suc (length (gets (snd (safe_navigate_from b u m (Suc attempt)))))"
          using retry True Load_failed by (simp add: snf_retry)
        ultimately show ?thesis using ih by (rule trace_step)
      next
        case False
        then show ?thesis using lt True Load_failed
          by (simp add: snf_last attempt_events_def nav_failure_def)
      qed
    qed
  qed
qed

lemma safe_navigate_from_stops:
  "length (gets (snd (safe_navigate_from b u m attempt))) = m - attempt
   \<or> (0 < length (gets (snd (safe_navigate_from b u m attempt)))
      \<and> \<not> nav_failure (b (attempt + length (gets (snd (safe_navigate_from b u m attempt))) - 1)))"
proof (induction "m - attempt" arbitrary: attempt)
  case 0
  then show ?case by (simp add: snf_done)
next
  case (Suc k)
  then have lt: "attempt < m" and k: "k = m - Suc attempt" by simp_all
  note ih = Suc.hyps(1) [OF k]
  show ?case
  proof (cases "b attempt")
    case Loaded
    then show ?thesis using lt by (simp add: snf_loaded nav_failure_def)
  next
    case Listing_timeout
    have "length (gets (snd (safe_navigate_from b u m attempt))) =
          Suc (length (gets (snd (safe_navigate_from b u m (Suc attempt)))))"
      using lt Listing_timeout by (simp add: snf_timeout)
    then show ?thesis using ih lt by auto
  next
    case (Load_failed e)
    show ?thesis
    proof (cases "is_WebDriverException e")
      case False
      then show ?thesis using lt Load_failed by (simp add: snf_foreign nav_failure_def)
    next
      case True
      show ?thesis
      proof (cases "attempt + 1 < m")
        case retry: True
        have "length (gets (snd (safe_navigate_from b u m attempt))) =
              Suc (length (gets (snd (safe_navigate_from b u m (Suc attempt)))))"
          using retry True Load_failed by (simp add: snf_retry)
        then show ?thesis using ih lt by auto
      next
        case False
        then have "m - attempt = Suc 0" using lt by simp
        then show ?thesis using lt False True Load_failed by (simp add: snf_last)
      qed
    qed
  qed
qed

text \<open>
  Claim C6. \<open>safe_navigate(driver, url, max_retries)\<close> of the listing scraper issues at
  most \<open>max_retries\<close> page loads; its run is the sequence of the attempts it made, each a
  load followed by a sleep of 5 exactly when that attempt was a navigation failure and not
  the final attempt; it stops early only after an attempt that is not a navigation failure;
  and it returns \<open>False\<close> exactly when every one of the \<open>max_retries\<close> attempts is a
  navigation failure.
\<close>

theorem safe_navigate_bounded_retry:
  "length (gets (snd (safe_navigate browser url max_retries))) \<le> max_retries
   \<and> snd (safe_navigate browser url max_retries) =
       concat (map (attempt_events browser url max_retries)
         [0..<length (gets (snd (safe_navigate browser url max_retries)))])
   \<and> (length (gets (snd (safe_navigate browser url max_retries))) = max_retries
       \<or> (0 < length (gets (snd (safe_navigate browser url max_retries)))
          \<and> \<not> nav_failure (browser (length (gets (snd (safe_navigate browser url max_retries))) - 1))))
   \<and> ((fst (safe_navigate browser url max_retries) = Inr False) =
       (\<forall>i<max_retries. nav_failure (browser i)))"
  using safe_navigate_from_gets [of browser url max_retries 0]
    safe_navigate_from_trace [of browser url max_retries 0]
    safe_navigate_from_stops [of browser url max_retries 0]
    safe_navigate_from_False [of browser url max_retries 0]
  by (simp add: safe_navigate_def)

lemma less_3_cases: "(i::nat) < 3 \<Longrightarrow> i = 0 \<or> i = 1 \<or> i = 2"
  by arith

theorem safe_navigate_bounded_retry_witness:
  "nav_failure (flaky_browser 0) \<and> nav_failure (flaky_browser 1) \<and> nav_failure (flaky_browser 2)
   \<and> fst (safe_navigate flaky_browser (Str ''u'') 3) = Inr False
   \<and> length (gets (snd (safe_navigate flaky_browser (Str ''u'') 3))) \<le> 3"
proof -
  have h: "\<forall>i<3. nav_failure (flaky_browser i)"
    by (auto simp: nav_failure_def flaky_browser_def)
  have h': "nav_failure (flaky_browser 0) \<and> nav_failure (flaky_browser 1) \<and> nav_failure (flaky_browser 2)"
    using h by simp
  show ?thesis
    using h h' safe_navigate_bounded_retry [of flaky_browser "Str ''u''" 3]
    by blast
qed

text \<open>The run of three failures in full: two back-offs, none after the final attempt.\<close>

lemma safe_navigate_three_failures:
  "safe_navigate flaky_browser (Str ''u'') 3 =
     (Inr False, [Get (Str ''u''), Sleep 5, Get (Str ''u''), Sleep 5, Get (Str ''u'')])"
  by (simp add: safe_navigate_def safe_navigate_from.simps flaky_browser_def)

section \<open>Properties of the checkpoints of the analysis stage\<close>

lemma gpt_loop_saves:
  assumes good: "\<forall>r\<in>set rows. \<not> already_processed r \<and> (\<exists>p. build_prompt r = Inr p)"
    and len: "length pre = k"
  shows "saves (snd (fold (gpt_step service n) (enumerate k rows) (pre @ rows, tr))) =
     saves tr @
     map (\<lambda>j. pre @ map (\<lambda>(i, r). outcome_row service i r) (enumerate k (take (Suc j - k) rows))
                @ drop (Suc j - k) rows)
       (filter (checkpoint n) [k..<k + length rows])"
  using good len
proof (induction rows arbitrary: pre k tr)
  case Nil
  then show ?case by simp
next
  case (Cons r rs)
  have np: "\<not> already_processed r" using Cons.prems by simp
  obtain p where p: "build_prompt r = Inr p" using Cons.prems by auto
  let ?r' = "outcome_row service k r"
  let ?f = "\<lambda>j. pre @ map (\<lambda>(i, r). outcome_row service i r) (enumerate k (take (Suc j - k) (r # rs)))
                @ drop (Suc j - k) (r # rs)"
  let ?g = "\<lambda>j. (pre @ [?r']) @ map (\<lambda>(i, r). outcome_row service i r) (enumerate (Suc k) (take (Suc j - Suc k) rs))
                @ drop (Suc j - Suc k) rs"
  let ?tr' = "tr @ [Post k p] @ (if checkpoint n k then [To_csv ((pre @ [?r']) @ rs)] else []) @ [Sleep 1]"
  have r': "?r' = r(''gpt_analysis'' \<mapsto> Str (api_text (service k p)))"
    by (simp add: outcome_row_def p)
  have upd: "(pre @ r # rs)[k := ((pre @ r # rs) ! k)(''gpt_analysis'' \<mapsto> Str (api_text (service k p)))]
      = (pre @ [?r']) @ rs"
    using Cons.prems(2) by (simp add: list_update_append nth_append r')
  have step: "gpt_step service n (k, r) (pre @ r # rs, tr) = ((pre @ [?r']) @ rs, ?tr')"
    using upd by (simp add: gpt_step_fresh [OF np] p checkpoint_def)
  have ih: "saves (snd (fold (gpt_step service n) (enumerate (Suc k) rs) ((pre @ [?r']) @ rs, ?tr'))) =
      saves ?tr' @ map ?g (filter (checkpoint n) [Suc k..<Suc k + length rs])"
    by (rule Cons.IH) (use Cons.prems in simp_all)
  have fk: "?f k = (pre @ [?r']) @ rs" by simp
  have fg: "?f j = ?g j" if "j \<in> set [Suc k..<Suc k + length rs]" for j
  proof -
    from that have "Suc k \<le> j" by (simp only: set_upt atLeastLessThan_iff)
    then have "Suc j - k = Suc (j - k)" "Suc j - Suc k = j - k" by simp_all
    then show ?thesis by simp
  qed
  have mfg: "map ?f (filter (checkpoint n) [Suc k..<Suc k + length rs]) =
             map ?g (filter (checkpoint n) [Suc k..<Suc k + length rs])"
    by (rule map_cong) (use fg in auto)
  have upt: "[k..<k + length (r # rs)] = k # [Suc k..<Suc k + length rs]"
    by (subst upt_rec) simp
  have "saves (snd (fold (gpt_step service n) (enumerate k (r # rs)) (pre @ r # rs, tr))) =
        saves ?tr' @ map ?g (filter (checkpoint n) [Suc k..<Suc k + length rs])"
    using ih step by simp
  also have "\<dots> = saves tr @ map ?f (filter (checkpoint n) [k..<k + length (r # rs)])"
    unfolding upt mfg [symmetric] using fk by simp
  finally show ?case .
qed

lemma process_gpt_saves:
  assumes "\<forall>r\<in>set df. has_prompt_columns r"
  shows "saves (snd (process_contractors_with_gpt service (Inr df))) =
     map (snapshot_after service (reset_gpt df)) (filter (checkpoint (length df)) [0..<length df])
     @ [fst (process_contractors_with_gpt service (Inr df))]"
proof -
  have "saves (snd (fold (gpt_step service (length df)) (enumerate 0 (reset_gpt df)) ([] @ reset_gpt df, []))) =
     saves [] @
     map (\<lambda>j. [] @ map (\<lambda>(i, r). outcome_row service i r) (enumerate 0 (take (Suc j - 0) (reset_gpt df)))
                @ drop (Suc j - 0) (reset_gpt df))
       (filter (checkpoint (length df)) [0..<0 + length (reset_gpt df)])"
    by (rule gpt_loop_saves [OF reset_gpt_build [OF assms]]) simp
  then show ?thesis
    by (simp add: process_gpt_snd process_gpt_fst snapshot_after_def)
qed

lemma take_enumerate: "take m (enumerate n xs) = enumerate n (take m xs)"
  by (induction xs arbitrary: m n) (auto simp: take_Cons split: nat.splits)

lemma upt7: "[0..<7] = [0, 1, 2, 3, 4, 5, 6::nat]"
  by (simp add: upt_rec)

lemma gpt_saves_seven:
  assumes cols: "\<forall>r\<in>set df. has_prompt_columns r" and len: "length df = 7"
  shows "saves (snd (process_contractors_with_gpt service (Inr df))) =
     [take 5 (fst (process_contractors_with_gpt service (Inr df))) @ drop 5 (reset_gpt df),
      fst (process_contractors_with_gpt service (Inr df)),
      fst (process_contractors_with_gpt service (Inr df))]"
proof -
  have "snapshot_after service (reset_gpt df) 4 =
        take 5 (fst (process_contractors_with_gpt service (Inr df))) @ drop 5 (reset_gpt df)"
    by (simp add: snapshot_after_def process_gpt_frame take_map take_enumerate)
  moreover have "snapshot_after service (reset_gpt df) 6 = fst (process_contractors_with_gpt service (Inr df))"
    using len by (simp add: snapshot_after_def process_gpt_frame)
  ultimately show ?thesis
    by (simp add: process_gpt_saves [OF cols] len upt7 checkpoint_def)
qed

section \<open>Properties of the two record processors\<close>

lemma saves_detail_from: "saves (snd (safe_navigate_detail_from b u m a)) = []"
proof (induction "m - a" arbitrary: a)
  case 0
  then show ?case by (subst safe_navigate_detail_from.simps) simp
next
  case (Suc k)
  then have "k = m - Suc a" by simp
  from Suc.hyps(1) [OF this] show ?case
    by (subst safe_navigate_detail_from.simps) (auto split: option.splits prod.splits)
qed

lemma saves_extract_about_section: "saves (snd (extract_about_section d u)) = []"
  using saves_detail_from [of "loads d" u 3 0]
  by (auto simp: extract_about_section_def safe_navigate_detail_def
      split: prod.splits sum.splits bool.splits)

lemma about_step_visitable:
  assumes "visitable w idx r"
  shows "about_step w n (idx, r) (df, tr) =
     (df[idx := (df ! idx)(''about_section'' \<mapsto>
          Str (case fst (extract_about_section (record_site w idx) (the (r ''page_link''))) of
                 Inr a \<Rightarrow> a | Inl e \<Rightarrow> []))],
      tr @ snd (extract_about_section (record_site w idx) (the (r ''page_link'')))
        @ (if checkpoint n idx
           then [To_csv (df[idx := (df ! idx)(''about_section'' \<mapsto>
             Str (case fst (extract_about_section (record_site w idx) (the (r ''page_link''))) of
                 Inr a \<Rightarrow> a | Inl e \<Rightarrow> []))])]
           else [])
        @ [Sleep 2])"
  using assms
  by (auto simp: about_step_def visitable_def checkpoint_def Let_def
      split: option.splits sum.splits prod.splits)

lemma about_row_visitable:
  "visitable w i r \<Longrightarrow>
   about_row w i r = r(''about_section'' \<mapsto>
     Str (case fst (extract_about_section (record_site w i) (the (r ''page_link''))) of
            Inr a \<Rightarrow> a | Inl e \<Rightarrow> []))"
  by (auto simp: about_row_def visitable_def split: option.splits sum.splits)

lemma visitable_tail:
  assumes "\<forall>i<length (r # rs). visitable w (k + i) ((r # rs) ! i)"
  shows "visitable w k r" and "\<forall>i<length rs. visitable w (Suc k + i) (rs ! i)"
proof -
  show "visitable w k r" using assms by force
  show "\<forall>i<length rs. visitable w (Suc k + i) (rs ! i)"
  proof (intro allI impI)
    fix i assume "i < length rs"
    then have "Suc i < length (r # rs)" by simp
    with assms have "visitable w (k + Suc i) ((r # rs) ! Suc i)" by blast
    then show "visitable w (Suc k + i) (rs ! i)" by simp
  qed
qed

lemma about_loop_frame:
  assumes good: "\<forall>i<length rows. visitable w (k + i) (rows ! i)" and len: "length pre = k"
  shows "fst (fold (about_step w n) (enumerate k rows) (pre @ rows, tr)) =
         pre @ map (\<lambda>(i, r). about_row w i r) (enumerate k rows)"
  using good len
proof (induction rows arbitrary: pre k tr)
  case Nil
  then show ?case by simp
next
  case (Cons r rs)
  note v = visitable_tail [OF Cons.prems(1)]
  let ?r' = "about_row w k r"
  have upd: "(pre @ r # rs)[k := ((pre @ r # rs) ! k)(''about_section'' \<mapsto>
          Str (case fst (extract_about_section (record_site w k) (the (r ''page_link''))) of
                 Inr a \<Rightarrow> a | Inl e \<Rightarrow> []))] = (pre @ [?r']) @ rs"
    using Cons.prems(2) by (simp add: list_update_append nth_append about_row_visitable [OF v(1)])
  have "fst (about_step w n (k, r) (pre @ r # rs, tr)) = (pre @ [?r']) @ rs"
    using upd by (simp add: about_step_visitable [OF v(1)])
  then obtain tr' where "about_step w n (k, r) (pre @ r # rs, tr) = ((pre @ [?r']) @ rs, tr')"
    by (cases "about_step w n (k, r) (pre @ r # rs, tr)") simp
  then have "fold (about_step w n) (enumerate k (r # rs)) (pre @ r # rs, tr) =
          fold (about_step w n) (enumerate (Suc k) rs) ((pre @ [?r']) @ rs, tr')"
    by simp
  then show ?case
    using Cons.IH [of "Suc k" "pre @ [?r']" tr'] v(2) Cons.prems(2) by simp
qed

lemma about_loop_saves:
  assumes good: "\<forall>i<length rows. visitable w (k + i) (rows ! i)" and len: "length pre = k"
  shows "saves (snd (fold (about_step w n) (enumerate k rows) (pre @ rows, tr))) =
     saves tr @
     map (\<lambda>j. pre @ map (\<lambda>(i, r). about_row w i r) (enumerate k (take (Suc j - k) rows))
                @ drop (Suc j - k) rows)
       (filter (checkpoint n) [k..<k + length rows])"
  using good len
proof (induction rows arbitrary: pre k tr)
  case Nil
  then show ?case by simp
next
  case (Cons r rs)
  note v = visitable_tail [OF Cons.prems(1)]
  let ?r' = "about_row w k r"
  let ?f = "\<lambda>j. pre @ map (\<lambda>(i, r). about_row w i r) (enumerate k (take (Suc j - k) (r # rs)))
                @ drop (Suc j - k) (r # rs)"
  let ?g = "\<lambda>j. (pre @ [?r']) @ map (\<lambda>(i, r). about_row w i r) (enumerate (Suc k) (take (Suc j - Suc k) rs))
                @ drop (Suc j - Suc k) rs"
  let ?tr' = "tr @ snd (extract_about_section (record_site w k) (the (r ''page_link'')))
     @ (if checkpoint n k then [To_csv ((pre @ [?r']) @ rs)] else []) @ [Sleep 2]"
  have upd: "(pre @ r # rs)[k := ((pre @ r # rs) ! k)(''about_section'' \<mapsto>
          Str (case fst (extract_about_section (record_site w k) (the (r ''page_link''))) of
                 Inr a \<Rightarrow> a | Inl e \<Rightarrow> []))] = (pre @ [?r']) @ rs"
    using Cons.prems(2) by (simp add: list_update_append nth_append about_row_visitable [OF v(1)])
  have step: "about_step w n (k, r) (pre @ r # rs, tr) = ((pre @ [?r']) @ rs, ?tr')"
    using upd by (simp add: about_step_visitable [OF v(1)])
  have ih: "saves (snd (fold (about_step w n) (enumerate (Suc k) rs) ((pre @ [?r']) @ rs, ?tr'))) =
      saves ?tr' @ map ?g (filter (checkpoint n) [Suc k..<Suc k + length rs])"
    by (rule Cons.IH) (use v(2) Cons.prems(2) in simp_all)
  have fk: "?f k = (pre @ [?r']) @ rs" by simp
  have fg: "?f j = ?g j" if "j \<in> set [Suc k..<Suc k + length rs]" for j
  proof -
    from that have "Suc k \<le> j" by (simp only: set_upt atLeastLessThan_iff)
    then have "Suc j - k = Suc (j - k)" "Suc j - Suc k = j - k" by simp_all
    then show ?thesis by simp
  qed
  have mfg: "map ?f (filter (checkpoint n) [Suc k..<Suc k + length rs]) =
             map ?g (filter (checkpoint n) [Suc k..<Suc k + length rs])"
    by (rule map_cong) (use fg in auto)
  have upt: "[k..<k + length (r # rs)] = k # [Suc k..<Suc k + length rs]"
    by (subst upt_rec) simp
  have "saves (snd (fold (about_step w n) (enumerate k (r # rs)) (pre @ r # rs, tr))) =
        saves ?tr' @ map ?g (filter (checkpoint n) [Suc k..<Suc k + length rs])"
    using ih step by simp
  also have "\<dots> = saves tr @ map ?f (filter (checkpoint n) [k..<k + length (r # rs)])"
    unfolding upt mfg [symmetric] using fk by (simp add: saves_extract_about_section)
  finally show ?case .
qed

lemma visitable_reset [simp]:
  "visitable w i (r(''about_section'' \<mapsto> v)) = visitable w i r"
  by (simp add: visitable_def)

lemma length_reset_about [simp]: "length (reset_about df) = length df"
  by (simp add: reset_about_def)

lemma visitable_reset_about:
  assumes "\<forall>i<length df. visitable w i (df ! i)"
  shows "\<forall>i<length (reset_about df). visitable w (0 + i) (reset_about df ! i)"
  using assms by (simp add: reset_about_def)

lemma saves_detail_pair: "safe_navigate_detail_from b u m a = (res, evs) \<Longrightarrow> saves evs = []"
  using saves_detail_from [of b u m a] by simp

lemma saves_first_visit: "first_visit w df = Inr evs \<Longrightarrow> saves evs = []"
  by (auto simp: first_visit_def safe_navigate_detail_def dest: saves_detail_pair
      split: list.splits option.splits if_splits prod.splits sum.splits)

lemma process_file_fst:
  assumes "setup_driver w = None" and "first_visit w (reset_about df) = Inr evs0"
  shows "fst (process_contractors_file w (Inr df)) =
   fst (fold (about_step w (length df)) (enumerate 0 (reset_about df)) (reset_about df, evs0))"
  using assms by (simp add: process_contractors_file_def Let_def split: prod.splits)

lemma process_file_snd:
  assumes "setup_driver w = None" and "first_visit w (reset_about df) = Inr evs0"
  shows "snd (process_contractors_file w (Inr df)) =
   snd (fold (about_step w (length df)) (enumerate 0 (reset_about df)) (reset_about df, evs0))
   @ [To_csv (fst (fold (about_step w (length df)) (enumerate 0 (reset_about df)) (reset_about df, evs0)))]"
  using assms by (simp add: process_contractors_file_def Let_def split: prod.splits)

lemma process_file_frame:
  assumes "setup_driver w = None" and "first_visit w (reset_about df) = Inr evs0"
    and "\<forall>i<length df. visitable w i (df ! i)"
  shows "fst (process_contractors_file w (Inr df)) =
     map (\<lambda>(i, r). about_row w i r) (enumerate 0 (reset_about df))"
proof -
  have "fst (fold (about_step w (length df)) (enumerate 0 (reset_about df)) ([] @ reset_about df, evs0)) =
        [] @ map (\<lambda>(i, r). about_row w i r) (enumerate 0 (reset_about df))"
    by (rule about_loop_frame [OF visitable_reset_about [OF assms(3)]]) simp
  then show ?thesis by (simp add: process_file_fst [OF assms(1,2)])
qed

lemma process_file_saves:
  assumes "setup_driver w = None" and "first_visit w (reset_about df) = Inr evs0"
    and "\<forall>i<length df. visitable w i (df ! i)"
  shows "saves (snd (process_contractors_file w (Inr df))) =
     map (about_snapshot_after w (reset_about df)) (filter (checkpoint (length df)) [0..<length df])
     @ [fst (process_contractors_file w (Inr df))]"
proof -
  have "saves (snd (fold (about_step w (length df)) (enumerate 0 (reset_about df)) ([] @ reset_about df, evs0))) =
     saves evs0 @
     map (\<lambda>j. [] @ map (\<lambda>(i, r). about_row w i r) (enumerate 0 (take (Suc j - 0) (reset_about df)))
                @ drop (Suc j - 0) (reset_about df))
       (filter (checkpoint (length df)) [0..<0 + length (reset_about df)])"
    by (rule about_loop_saves [OF visitable_reset_about [OF assms(3)]]) simp
  then show ?thesis
    by (simp add: process_file_snd [OF assms(1,2)] process_file_fst [OF assms(1,2)]
        about_snapshot_after_def saves_first_visit [OF assms(2)])
qed

lemma about_saves_seven:
  assumes "setup_driver w = None" and "first_visit w (reset_about df) = Inr evs0"
    and vis: "\<forall>i<length df. visitable w i (df ! i)" and len: "length df = 7"
  shows "saves (snd (process_contractors_file w (Inr df))) =
     [take 5 (fst (process_contractors_file w (Inr df))) @ drop 5 (reset_about df),
      fst (process_contractors_file w (Inr df)),
      fst (process_contractors_file w (Inr df))]"
proof -
  note fr = process_file_frame [OF assms(1,2) vis]
  have "about_snapshot_after w (reset_about df) 4 =
        take 5 (fst (process_contractors_file w (Inr df))) @ drop 5 (reset_about df)"
    by (simp add: about_snapshot_after_def fr take_map take_enumerate)
  moreover have "about_snapshot_after w (reset_about df) 6 = fst (process_contractors_file w (Inr df))"
    using len by (simp add: about_snapshot_after_def fr)
  ultimately show ?thesis
    by (simp add: process_file_saves [OF assms(1,2) vis] len upt7 checkpoint_def)
qed

text \<open>
  Claim C2, as amended. For a row-store of exactly 7 records that all run through the loop
  (analysis stage: every row has the prompt's columns; detail stage: the driver starts, the
  first visit returns and every record is visitable), the row-store is written exactly 3
  times: after record 5 (records 1 to 5 processed, 6 and 7 still at the sentinel), after
  record 7, and once more after the loop with the same content as after record 7.
\<close>

theorem seven_records_three_writes:
  "(length df = 7 \<and> (\<forall>r\<in>set df. has_prompt_columns r) \<longrightarrow>
      saves (snd (process_contractors_with_gpt service (Inr df))) =
        [take 5 (fst (process_contractors_with_gpt service (Inr df))) @ drop 5 (reset_gpt df),
         fst (process_contractors_with_gpt service (Inr df)),
         fst (process_contractors_with_gpt service (Inr df))])
   \<and> (length df = 7 \<and> setup_driver w = None \<and> first_visit w (reset_about df) = Inr evs0
        \<and> (\<forall>i<length df. visitable w i (df ! i)) \<longrightarrow>
      saves (snd (process_contractors_file w (Inr df))) =
        [take 5 (fst (process_contractors_file w (Inr df))) @ drop 5 (reset_about df),
         fst (process_contractors_file w (Inr df)),
         fst (process_contractors_file w (Inr df))])"
  using gpt_saves_seven [of df service] about_saves_seven [of w df evs0]
  by blast

lemma steady_navigate:
  "safe_navigate_detail (\<lambda>i. None) u 3 = (Inr True, [Get u, Sleep 3])"
  by (simp add: safe_navigate_detail_def safe_navigate_detail_from.simps)

lemma broken_navigate:
  "safe_navigate_detail (\<lambda>i. Some OtherException) u 3 = (Inl OtherException, [Get u])"
  by (simp add: safe_navigate_detail_def safe_navigate_detail_from.simps)

lemma visitable_steady: "visitable steady_web i contractor_row"
  by (simp add: visitable_def contractor_row_def steady_web_def steady_site_def
      extract_about_section_def steady_navigate)

lemma replicate_seven: "replicate 7 x = [x, x, x, x, x, x, x]"
  by (simp add: numeral_eq_Suc)

lemma first_visit_steady:
  "first_visit steady_web (reset_about (replicate 7 contractor_row)) =
     Inr [Get (Str ''https://example.com/acme''), Sleep 3]"
  by (simp add: replicate_seven first_visit_def reset_about_def contractor_row_def steady_web_def
      steady_site_def steady_navigate)

theorem seven_records_three_writes_witness:
  "length (replicate 7 contractor_row) = 7
   \<and> list_all has_prompt_columns (replicate 7 contractor_row)
   \<and> setup_driver steady_web = None
   \<and> first_visit steady_web (reset_about (replicate 7 contractor_row)) =
        Inr [Get (Str ''https://example.com/acme''), Sleep 3]
   \<and> list_all (\<lambda>i. visitable steady_web i (replicate 7 contractor_row ! i)) [0..<7]
   \<and> length (saves (snd (process_contractors_with_gpt (fixed_service ''SUMMARY: ok'')
        (Inr (replicate 7 contractor_row))))) = 3
   \<and> length (saves (snd (process_contractors_file steady_web (Inr (replicate 7 contractor_row))))) = 3"
proof -
  have h1: "length (replicate 7 contractor_row) = 7" by simp
  have h2: "\<forall>r\<in>set (replicate 7 contractor_row). has_prompt_columns r" by simp
  have h3: "setup_driver steady_web = None" by (simp add: steady_web_def)
  note h4 = first_visit_steady
  have h5: "\<forall>i<length (replicate 7 contractor_row). visitable steady_web i (replicate 7 contractor_row ! i)"
    by (simp add: visitable_steady)
  note t = seven_records_three_writes [of "replicate 7 contractor_row" "fixed_service ''SUMMARY: ok''"
      steady_web "[Get (Str ''https://example.com/acme''), Sleep 3]"]
  from t h1 h2 have a: "length (saves (snd (process_contractors_with_gpt (fixed_service ''SUMMARY: ok'')
        (Inr (replicate 7 contractor_row))))) = 3"
    by simp
  from t h1 h3 h4 h5 have b: "length (saves (snd (process_contractors_file steady_web
        (Inr (replicate 7 contractor_row))))) = 3"
    by simp
  have h2': "list_all has_prompt_columns (replicate 7 contractor_row)"
    by (simp add: list_all_iff)
  have h5': "list_all (\<lambda>i. visitable steady_web i (replicate 7 contractor_row ! i)) [0..<7]"
    by (simp add: list_all_iff visitable_steady)
  show ?thesis using h1 h2' h3 h4 h5' a b by blast
qed

text \<open>
  Claim C2 as stated fails: on seven records that all have the prompt's columns the analysis
  stage does not write the row-store exactly twice.
\<close>

theorem seven_records_not_two_writes:
  "length (saves (snd (process_contractors_with_gpt (fixed_service ''SUMMARY: ok'')
     (Inr (replicate 7 contractor_row))))) \<noteq> 2"
  using gpt_saves_seven [of "replicate 7 contractor_row" "fixed_service ''SUMMARY: ok''"]
  by simp

text \<open>
  Claim C5. In the detail stage the browser session fails with an exception outside
  \<open>WebDriverException\<close> while the page of the first of two records loads: the failure is
  logged with position 1 and the loop goes on to record 2, but nothing is written before the
  checkpoint of record 2 (the first five events hold no write). The analysis stage, on two
  records that raise \<open>KeyError\<close>, writes the row-store right after each logged failure.
\<close>

theorem detail_stage_no_defensive_checkpoint:
  "take 5 (snd (process_contractors_file broken_web (Inr [contractor_row, contractor_row]))) =
     [Get (Str ''https://example.com/acme''), Sleep 3,
      Get (Str ''https://example.com/acme''), Log_error 1,
      Get (Str ''https://example.com/acme'')]
   \<and> map is_save (snd (process_contractors_file broken_web (Inr [contractor_row, contractor_row]))) =
     [False, False, False, False, False, False, True, False, True]
   \<and> map is_save (snd (process_contractors_with_gpt (fixed_service ''SUMMARY: ok'')
        (Inr [contractor_row(''about_section'' := None), contractor_row(''about_section'' := None)]))) =
     [False, True, False, True, True]"
  by (simp add: process_contractors_file_def first_visit_def reset_about_def about_step_def
      extract_about_section_def steady_navigate broken_navigate
      broken_web_def steady_site_def broken_site_def contractor_row_def
      process_contractors_with_gpt_def reset_gpt_def gpt_step_def already_processed_def
      analyze_contractor_with_gpt_def build_prompt_def Let_def)

lemma process_gpt_nth:
  assumes "j < length df" and "build_prompt (df ! j) = Inr q"
  shows "(fst (process_contractors_with_gpt service (Inr df)) ! j) ''gpt_analysis'' =
         Some (Str (api_text (service j q)))"
  using assms
  by (simp add: process_gpt_frame nth_enumerate_eq reset_gpt_def outcome_row_def)

text \<open>
  Claim C8. Once the prompt is built, \<open>analyze_contractor_with_gpt\<close> always returns a
  string: the text of the response when the status is 200 and the body carries it, and
  exactly \<open>"Error in API call"\<close> when the call raises or the status is not 200. In the loop,
  a record whose request is answered with HTTP 500 ends with that sentinel in
  \<open>gpt_analysis\<close>, and every record of the frame is still posted, in order.
\<close>

theorem analyze_error_sentinel:
  "(build_prompt d = Inr p \<longrightarrow>
      (\<exists>a. fst (analyze_contractor_with_gpt service i d) = Inr a)
    \<and> (\<forall>t. service i p = Response 200 (Some t) \<longrightarrow>
          fst (analyze_contractor_with_gpt service i d) = Inr t)
    \<and> (service i p = Transport_error \<or> (\<exists>s b. s \<noteq> 200 \<and> service i p = Response s b) \<longrightarrow>
          fst (analyze_contractor_with_gpt service i d) = Inr ''Error in API call''))
   \<and> (j < length df \<and> build_prompt (df ! j) = Inr q \<and> service j q = Response 500 b \<longrightarrow>
        (fst (process_contractors_with_gpt service (Inr df)) ! j) ''gpt_analysis'' =
          Some (Str ''Error in API call''))
   \<and> ((\<forall>r\<in>set df. has_prompt_columns r) \<longrightarrow>
        posts (snd (process_contractors_with_gpt service (Inr df))) = [0..<length df])"
proof (intro conjI impI)
  assume "build_prompt d = Inr p"
  then show "\<exists>a. fst (analyze_contractor_with_gpt service i d) = Inr a"
    by (simp add: analyze_contractor_with_gpt_def)
next
  assume "build_prompt d = Inr p"
  then show "\<forall>t. service i p = Response 200 (Some t) \<longrightarrow>
      fst (analyze_contractor_with_gpt service i d) = Inr t"
    by (simp add: analyze_contractor_with_gpt_def api_text_def)
next
  assume "build_prompt d = Inr p"
    and "service i p = Transport_error \<or> (\<exists>s b. s \<noteq> 200 \<and> service i p = Response s b)"
  then show "fst (analyze_contractor_with_gpt service i d) = Inr ''Error in API call''"
    by (auto simp: analyze_contractor_with_gpt_def api_text_def)
next
  assume "j < length df \<and> build_prompt (df ! j) = Inr q \<and> service j q = Response 500 b"
  then show "(fst (process_contractors_with_gpt service (Inr df)) ! j) ''gpt_analysis'' =
      Some (Str ''Error in API call'')"
    using process_gpt_nth [of j df q service] by (simp add: api_text_def)
next
  assume "\<forall>r\<in>set df. has_prompt_columns r"
  then show "posts (snd (process_contractors_with_gpt service (Inr df))) = [0..<length df]"
    by (rule process_gpt_posts)
qed

lemma build_prompt_contractor_row:
  "build_prompt contractor_row =
     Inr [Str ''Acme Roofing'', Num 5, Str ''Master Elite'', Str ''(555) 010-0000'', Str ''Family owned.'']"
  by (simp add: build_prompt_def contractor_row_def)

theorem analyze_error_sentinel_witness:
  "build_prompt contractor_row =
     Inr [Str ''Acme Roofing'', Num 5, Str ''Master Elite'', Str ''(555) 010-0000'', Str ''Family owned.'']
   \<and> failing_service 0 [Str ''Acme Roofing'', Num 5, Str ''Master Elite'', Str ''(555) 010-0000'', Str ''Family owned.'']
       = Response 500 None
   \<and> (0::nat) < length [contractor_row, contractor_row]
   \<and> list_all has_prompt_columns [contractor_row, contractor_row]
   \<and> fst (analyze_contractor_with_gpt failing_service 0 contractor_row) = Inr ''Error in API call''
   \<and> (fst (process_contractors_with_gpt failing_service (Inr [contractor_row, contractor_row])) ! 0)
        ''gpt_analysis'' = Some (Str ''Error in API call'')
   \<and> posts (snd (process_contractors_with_gpt failing_service (Inr [contractor_row, contractor_row])))
        = [0, 1]"
proof -
  let ?p = "[Str ''Acme Roofing'', Num 5, Str ''Master Elite'', Str ''(555) 010-0000'', Str ''Family owned.'']"
  note h1 = build_prompt_contractor_row
  have h2: "failing_service 0 ?p = Response 500 None" by (simp add: failing_service_def)
  have h3: "(0::nat) < length [contractor_row, contractor_row]" by simp
  have h4: "\<forall>r\<in>set [contractor_row, contractor_row]. has_prompt_columns r" by simp
  have h5: "[contractor_row, contractor_row] ! 0 = contractor_row" by simp
  note t = analyze_error_sentinel [of contractor_row ?p failing_service 0 0
      "[contractor_row, contractor_row]" ?p None]
  from t h1 h2 have a: "fst (analyze_contractor_with_gpt failing_service 0 contractor_row) = Inr ''Error in API call''"
    by simp
  from t h1 h2 h3 h5 have b: "(fst (process_contractors_with_gpt failing_service (Inr [contractor_row, contractor_row])) ! 0)
        ''gpt_analysis'' = Some (Str ''Error in API call'')"
    by simp
  from t h4 have "posts (snd (process_contractors_with_gpt failing_service (Inr [contractor_row, contractor_row])))
        = [0..<length [contractor_row, contractor_row]]"
    by blast
  then have c: "posts (snd (process_contractors_with_gpt failing_service (Inr [contractor_row, contractor_row])))
        = [0, 1]"
    by (simp add: upt_rec)
  have h4': "list_all has_prompt_columns [contractor_row, contractor_row]" by simp
  show ?thesis using h1 h2 h3 h4' a b c by blast
qed

section \<open>Properties of one listing item\<close>

lemma cert_texts_filter:
  "safe_get_texts els = Inr ts \<Longrightarrow> cert_texts els = Inr (filter (\<lambda>t. t \<noteq> ''N/A'') ts)"
  by (induction els arbitrary: ts) (auto split: sum.splits)

lemma certifications_name_link:
  "extract_name_link it d = Inr d' \<Longrightarrow> certifications d' = certifications d"
  by (auto simp: extract_name_link_def split: sum.splits if_splits)

lemma certifications_rating:
  "extract_rating it d = Inr d' \<Longrightarrow> certifications d' = certifications d"
  by (auto simp: extract_rating_def split: sum.splits if_splits)

lemma certifications_phone_alternative:
  "extract_phone_alternative it d = Inr d' \<Longrightarrow> certifications d' = certifications d"
  by (auto simp: extract_phone_alternative_def split: sum.splits if_splits)

lemma certifications_phone:
  "extract_phone it d = Inr d' \<Longrightarrow> certifications d' = certifications d"
  by (auto simp: extract_phone_def split: sum.splits if_splits dest: certifications_phone_alternative)

lemma certifications_extract:
  assumes "cert_elements it = Inr els" and "safe_get_texts els = Inr ts"
    and "certifications d = Some ''N/A''"
  shows "certifications (extract_certifications it d) = Some (stored_certifications ts)"
proof (cases "els = []")
  case True
  then have "ts = []" using assms(2) by simp
  then show ?thesis using assms True by (simp add: extract_certifications_def stored_certifications_def)
next
  case False
  then show ?thesis
    using assms cert_texts_filter [OF assms(2)]
    by (simp add: extract_certifications_def stored_certifications_def)
qed

lemma process_item_certifications:
  assumes "process_item it = Some c" and "cert_elements it = Inr els" and "safe_get_texts els = Inr ts"
  shows "certifications c = Some (stored_certifications ts)"
proof -
  from assms(1) obtain d1 d2 where
    d1: "extract_name_link it new_contractor = Inr d1" and
    d2: "extract_rating it d1 = Inr d2" and
    c: "extract_phone it (extract_certifications it d2) = Inr c"
    by (auto simp: process_item_def split: sum.splits)
  have "certifications d2 = Some ''N/A''"
    using certifications_name_link [OF d1] certifications_rating [OF d2]
    by (simp add: new_contractor_def)
  then show ?thesis
    using certifications_phone [OF c] certifications_extract [OF assms(2,3)] by simp
qed

lemma safe_get_text_empty: "elem_text el = Inr [] \<Longrightarrow> safe_get_text el = Inr ''N/A''"
  by (simp add: safe_get_text_def)

text \<open>
  The certifications block stores exactly that value, for an item that yields a record and
  whose certification texts can all be read.
\<close>

lemma certifications_stored:
  "(process_item it = Some c \<and> cert_elements it = Inr els \<and> safe_get_texts els = Inr ts \<longrightarrow>
      certifications c = Some (stored_certifications ts)
      \<and> (filter (\<lambda>t. t \<noteq> ''N/A'') ts = [] \<longrightarrow> certifications c = Some ''N/A''))
   \<and> (elem_text el = Inr [] \<longrightarrow> safe_get_text el = Inr ''N/A'')
   \<and> (a \<noteq> ''N/A'' \<and> b \<noteq> ''N/A'' \<longrightarrow>
        stored_certifications [a, ''N/A'', b] = a @ '', '' @ b
      \<and> stored_certifications [''N/A'', a, b] = a @ '', '' @ b
      \<and> stored_certifications [a, b, ''N/A''] = a @ '', '' @ b)"
  using process_item_certifications [of it c els ts] safe_get_text_empty [of el]
  by (auto simp: stored_certifications_def)

lemma strip_examples:
  "strip ''Master Elite'' = ''Master Elite''"
  "strip ''Green Roofer'' = ''Green Roofer''"
  "strip ''Acme Roofing'' = ''Acme Roofing''"
  "strip ''4.8'' = ''4.8''"
  "strip ''  '' = []"
  "strip [] = []"
  by (simp_all add: strip_def is_space_def)

lemma phone_label_examples:
  "contains ''Phone Number:'' ''Phone Number:''"
  "replace ''Phone Number:'' [] ''Phone Number:'' = []"
  "\<not> contains ''Phone Number:'' []"
  by simp_all

lemma process_item_three_certs:
  "process_item (listing_item [''Master Elite'', [], ''Green Roofer''] ''(555) 010-0000'') =
     Some \<lparr>name = Some ''Acme Roofing'', page_link = Some ''https://example.com/acme'',
           rating_stars = Some ''4.8'', certifications = Some ''Master Elite, Green Roofer'',
           phone_number = Some ''(555) 010-0000''\<rparr>"
  by (simp add: process_item_def listing_item_def extract_name_link_def extract_rating_def
      extract_certifications_def extract_phone_def new_contractor_def safe_get_text_def
      safe_get_attribute_def text_element_def link_to_def strip_examples)

text \<open>
  Claim C9. A certification element whose text is blanks only reads as the empty string
  (the test of \<open>safe_get_text\<close> comes before its \<open>strip\<close>), which differs from \<open>'N/A'\<close> and
  so passes the filter: alone it is stored as the empty string, and between two valid
  entries it leaves an empty entry in the joined value. An element whose text is empty is
  filtered, as the claim says.
\<close>

theorem certifications_blank_text_kept:
  "process_item (listing_item [''  ''] ''(555) 010-0000'') =
     Some \<lparr>name = Some ''Acme Roofing'', page_link = Some ''https://example.com/acme'',
           rating_stars = Some ''4.8'', certifications = Some [],
           phone_number = Some ''(555) 010-0000''\<rparr>
   \<and> process_item (listing_item [''Master Elite'', ''  '', ''Green Roofer''] ''(555) 010-0000'') =
     Some \<lparr>name = Some ''Acme Roofing'', page_link = Some ''https://example.com/acme'',
           rating_stars = Some ''4.8'', certifications = Some ''Master Elite, , Green Roofer'',
           phone_number = Some ''(555) 010-0000''\<rparr>
   \<and> process_item (listing_item [''Master Elite'', [], ''Green Roofer''] ''(555) 010-0000'') =
     Some \<lparr>name = Some ''Acme Roofing'', page_link = Some ''https://example.com/acme'',
           rating_stars = Some ''4.8'', certifications = Some ''Master Elite, Green Roofer'',
           phone_number = Some ''(555) 010-0000''\<rparr>"
  by (simp add: process_item_def listing_item_def extract_name_link_def extract_rating_def
      extract_certifications_def extract_phone_def new_contractor_def safe_get_text_def
      safe_get_attribute_def text_element_def link_to_def strip_examples)

text \<open>
  Claim C3. The listing stage stores an empty \<open>phone_number\<close> when the text of the phone
  element is only the label \<open>Phone Number:\<close> or is empty (that field is read without
  \<open>safe_get_text\<close>), and stores Python's \<open>None\<close> as \<open>page_link\<close> for a link without
  \<open>href\<close>; and \<open>safe_get_text\<close> itself returns the empty string for a text of blanks, its
  test for emptiness coming before the \<open>strip\<close>.
\<close>

theorem listing_fields_empty_or_null:
  "process_item (listing_item [''Master Elite''] ''Phone Number:'') =
     Some \<lparr>name = Some ''Acme Roofing'', page_link = Some ''https://example.com/acme'',
           rating_stars = Some ''4.8'', certifications = Some ''Master Elite'',
           phone_number = Some []\<rparr>
   \<and> process_item (listing_item [''Master Elite''] []) =
     Some \<lparr>name = Some ''Acme Roofing'', page_link = Some ''https://example.com/acme'',
           rating_stars = Some ''4.8'', certifications = Some ''Master Elite'',
           phone_number = Some []\<rparr>
   \<and> process_item ((listing_item [''Master Elite''] ''(555) 010-0000'')
         \<lparr>link_element := Inr (text_element ''Acme Roofing'')\<rparr>) =
     Some \<lparr>name = Some ''Acme Roofing'', page_link = None,
           rating_stars = Some ''4.8'', certifications = Some ''Master Elite'',
           phone_number = Some ''(555) 010-0000''\<rparr>
   \<and> safe_get_text (text_element ''  '') = Inr []"
  by (simp add: process_item_def listing_item_def extract_name_link_def extract_rating_def
      extract_certifications_def extract_phone_def new_contractor_def safe_get_text_def
      safe_get_attribute_def text_element_def link_to_def strip_examples)

section \<open>Properties of the about extractor\<close>

lemma safe_get_texts_readable:
  "list_all readable ps \<Longrightarrow> safe_get_texts ps = Inr (map text_of ps)"
  by (induction ps) (auto simp: readable_def text_of_def split: sum.splits)

lemma search_headings_no_match:
  "\<not> list_ex heading_matches hs \<Longrightarrow> search_headings hs sec \<noteq> Inr (Some t)"
  by (induction hs) (auto simp: heading_matches_def split: sum.splits)

lemma search_headings_match:
  assumes "list_all readable hs" and "list_ex heading_matches hs"
    and "paragraphs sec = Inr ps" and "ps \<noteq> []" and "list_all readable ps"
  shows "search_headings hs sec = Inr (Some (join [CHR 0x0A] (map text_of ps)))"
  using assms(1,2)
proof (induction hs)
  case Nil
  then show ?case by simp
next
  case (Cons h hs)
  then obtain t where t: "safe_get_text h = Inr t"
    by (auto simp: readable_def split: sum.splits)
  show ?case
  proof (cases "contains ''about'' (lower t)")
    case True
    then show ?thesis
      using t assms(3,4) safe_get_texts_readable [OF assms(5)] by simp
  next
    case False
    then have "\<not> heading_matches h"
      using t by (simp add: heading_matches_def)
    then have "list_ex heading_matches hs"
      using Cons.prems(2) by simp
    then show ?thesis using Cons t False by simp
  qed
qed

lemma search_sections_skip:
  "\<not> has_about_heading sec \<Longrightarrow> search_sections (sec # secs) = search_sections secs"
  using search_headings_no_match [of _ sec]
  by (auto simp: has_about_heading_def split: sum.splits option.splits)

lemma search_sections_none:
  "\<forall>s\<in>set secs. \<not> has_about_heading s \<Longrightarrow> search_sections secs = None"
  by (induction secs) (simp_all add: search_sections_skip del: search_sections.simps(2))

lemma search_sections_ok:
  "about_section_ok sec \<Longrightarrow> search_sections (sec # secs) = Some (joined_paragraphs sec)"
  using search_headings_match [of _ sec]
  by (auto simp: about_section_ok_def joined_paragraphs_def split: sum.splits)

lemma search_sections_first:
  assumes "\<forall>s\<in>set pre. \<not> has_about_heading s" and "about_section_ok sec"
  shows "search_sections (pre @ sec # post) = Some (joined_paragraphs sec)"
  using assms(1)
  by (induction pre)
     (simp_all add: search_sections_skip search_sections_ok [OF assms(2)] del: search_sections.simps(2))

lemma scan_paragraphs_find:
  "list_all readable ps \<Longrightarrow> scan_paragraphs ps = Inr (find long_keyword (map text_of ps))"
  by (induction ps) (auto simp: readable_def text_of_def long_keyword_def split: sum.splits)

lemma join_newline:
  "CHR 0x0A \<in> set (join [CHR 0x0A] (x # y # ys))"
  by simp

lemma join_not_sentinel:
  assumes "\<exists>t\<in>set ts. t \<noteq> ''N/A''"
  shows "join [CHR 0x0A] ts \<noteq> ''N/A''"
proof (cases ts)
  case Nil
  then show ?thesis using assms by simp
next
  case (Cons x xs)
  show ?thesis
  proof (cases xs)
    case Nil
    then show ?thesis using assms Cons by simp
  next
    case (Cons y ys)
    have "CHR 0x0A \<in> set (join [CHR 0x0A] ts)"
      using \<open>ts = x # xs\<close> Cons by simp
    moreover have "CHR 0x0A \<notin> set ''N/A''" by simp
    ultimately show ?thesis by metis
  qed
qed

lemma extract_loaded:
  "loads_page driver url \<Longrightarrow>
   fst (extract_about_section driver url) = Inr (about_of_page (shown driver))"
  by (auto simp: loads_page_def extract_about_section_def split: prod.splits sum.splits bool.splits)

lemma lower_examples:
  "lower ''About Us'' = ''about us''"
  "lower ''Services'' = ''services''"
  by (simp_all add: lower_def lower_char_def char_of_def bit_Suc_0_iff)

lemma lower_company:
  "lower company_text = ''our company has served homeowners across the region for over thirty years with quality roofing and repairs.''"
  by (simp add: lower_def lower_char_def company_text_def char_of_def bit_Suc_0_iff)

lemma text_of_text_element:
  "text_of (text_element ''We roof.'') = ''We roof.''"
  "text_of (text_element ''Since 1990.'') = ''Since 1990.''"
  "text_of (text_element ''Roof repair.'') = ''Roof repair.''"
  "text_of (text_element company_text) = company_text"
  "readable (text_element t)"
  by (simp_all add: text_of_def readable_def safe_get_text_def text_element_def strip_def is_space_def
      company_text_def)

lemma heading_matches_examples:
  "heading_matches (text_element ''About Us'')"
  "\<not> heading_matches (text_element ''Services'')"
  by (simp_all add: heading_matches_def safe_get_text_def text_element_def strip_def is_space_def
      lower_examples)

lemma long_keyword_examples:
  "long_keyword company_text"
  "\<not> long_keyword ''Roof repair.''"
  by (simp_all add: long_keyword_def lower_company) (simp_all add: company_text_def)

lemma safe_get_texts_unreadable:
  "\<not> list_all readable ps \<Longrightarrow> \<exists>e. safe_get_texts ps = Inl e"
  by (induction ps) (auto simp: readable_def split: sum.splits)

lemma search_headings_unusable:
  "\<not> paragraphs_usable sec \<Longrightarrow> search_headings hs sec \<noteq> Inr (Some t)"
proof (induction hs)
  case Nil
  then show ?case by simp
next
  case (Cons h hs)
  show ?case
  proof (cases "paragraphs sec")
    case (Inl e)
    then show ?thesis using Cons by (auto split: sum.splits)
  next
    case (Inr ps)
    show ?thesis
    proof (cases "ps = []")
      case True
      then show ?thesis using Cons Inr by (auto split: sum.splits)
    next
      case False
      then have "\<not> list_all readable ps"
        using Cons.prems Inr by (simp add: paragraphs_usable_def)
      then obtain e where "safe_get_texts ps = Inl e"
        using safe_get_texts_unreadable by blast
      then show ?thesis using Cons Inr by (auto split: sum.splits)
    qed
  qed
qed

lemma search_headings_unreached:
  "\<not> reaches_about hs \<Longrightarrow> search_headings hs sec \<noteq> Inr (Some t)"
  by (induction hs) (auto split: sum.splits)

lemma search_headings_reached:
  assumes "paragraphs sec = Inr ps" and "ps \<noteq> []" and "list_all readable ps"
  shows "reaches_about hs \<Longrightarrow>
     search_headings hs sec = Inr (Some (join [CHR 0x0A] (map text_of ps)))"
  using assms safe_get_texts_readable [OF assms(3)]
  by (induction hs) (auto split: sum.splits)

lemma search_sections_yields:
  "section_yields sec \<Longrightarrow> search_sections (sec # secs) = Some (joined_paragraphs sec)"
  using search_headings_reached [of sec]
  by (auto simp: section_yields_def joined_paragraphs_def split: sum.splits)

lemma search_sections_passes:
  assumes "\<not> section_yields sec"
  shows "search_sections (sec # secs) = search_sections secs"
proof (cases "headings sec")
  case (Inl e)
  then show ?thesis by simp
next
  case (Inr hs)
  have "search_headings hs sec \<noteq> Inr (Some t)" for t
  proof (cases "reaches_about hs")
    case True
    then have "\<not> paragraphs_usable sec"
      using assms Inr by (simp add: section_yields_def paragraphs_usable_def)
    then show ?thesis by (rule search_headings_unusable)
  next
    case False
    then show ?thesis by (rule search_headings_unreached)
  qed
  then show ?thesis using Inr by (auto split: sum.splits option.splits)
qed

lemma search_sections_find:
  "search_sections secs = map_option joined_paragraphs (find section_yields secs)"
  by (induction secs)
     (simp_all add: search_sections_yields search_sections_passes del: search_sections.simps(2))

lemma join_single_sentinel:
  assumes "ts \<noteq> []"
  shows "(join [CHR 0x0A] ts = ''N/A'') = (ts = [''N/A''])"
proof (cases ts)
  case Nil
  then show ?thesis using assms by simp
next
  case (Cons x xs)
  show ?thesis
  proof (cases xs)
    case Nil
    then show ?thesis using Cons by simp
  next
    case (Cons y ys)
    have "CHR 0x0A \<in> set (join [CHR 0x0A] ts)"
      using \<open>ts = x # xs\<close> Cons by simp
    moreover have "CHR 0x0A \<notin> set ''N/A''" by simp
    ultimately have "join [CHR 0x0A] ts \<noteq> ''N/A''" by metis
    then show ?thesis using \<open>ts = x # xs\<close> Cons by simp
  qed
qed

lemma reaches_about_matches: "reaches_about hs \<Longrightarrow> list_ex heading_matches hs"
  by (induction hs) (auto simp: heading_matches_def split: sum.splits)

lemma yields_has_heading: "section_yields sec \<Longrightarrow> has_about_heading sec"
  by (auto simp: section_yields_def has_about_heading_def split: sum.splits
      dest: reaches_about_matches)

lemma find_yields_none:
  "\<forall>s\<in>set secs. \<not> has_about_heading s \<Longrightarrow> find section_yields secs = None"
  by (induction secs) (auto dest: yields_has_heading)

lemma scan_paragraphs_prefix:
  "(case scan_paragraphs aps of Inl e \<Rightarrow> ''N/A'' | Inr None \<Rightarrow> ''N/A'' | Inr (Some t) \<Rightarrow> t) =
   (case find long_keyword (map text_of (takeWhile readable aps)) of
      None \<Rightarrow> ''N/A'' | Some t \<Rightarrow> t)"
  by (induction aps) (auto simp: readable_def text_of_def long_keyword_def split: sum.splits)

lemma about_alternatives_sections:
  "sections pg = Inr secs \<Longrightarrow>
   about_alternatives pg =
     (case find section_yields secs of
        Some sec \<Rightarrow> joined_paragraphs sec
      | None \<Rightarrow>
          (case all_paragraphs pg of
             Inl e \<Rightarrow> ''N/A''
           | Inr aps \<Rightarrow>
               (case find long_keyword (map text_of (takeWhile readable aps)) of
                  None \<Rightarrow> ''N/A'' | Some t \<Rightarrow> t)))"
  using scan_paragraphs_prefix
  by (cases "find section_yields secs")
     (auto simp: about_alternatives_def search_sections_find split: sum.splits option.splits)

text \<open>
  Claim C7, as amended. The page loads and the canonical locator finds no element. The
  function returns the joined paragraph text of the first section, in document order, that
  yields (sections whose about heading comes with no paragraph, or in which a lookup raises,
  are passed over), whatever the page's other paragraphs are. That text is the sentinel
  exactly when the section has a single paragraph whose text reads as the sentinel. The
  search by heading returns nothing exactly when no section yields, as when no section has
  an about heading; then the function returns the first paragraph text, among those read
  before any paragraph fails to be read, that is longer than 100 characters and contains a
  keyword, and the sentinel when there is none.
\<close>

theorem about_fallback_exact:
  "(loads_page driver url \<and> about_element (shown driver) = Inl NoSuchElementException
      \<and> sections (shown driver) = Inr secs \<and> find section_yields secs = Some sec \<longrightarrow>
        fst (extract_about_section driver url) = Inr (joined_paragraphs sec))
   \<and> (loads_page driver url \<and> about_element (shown driver) = Inl NoSuchElementException
      \<and> sections (shown driver) = Inr secs \<and> find section_yields secs = None
      \<and> all_paragraphs (shown driver) = Inr aps \<longrightarrow>
        fst (extract_about_section driver url) =
          Inr (case find long_keyword (map text_of (takeWhile readable aps)) of
                 Some t \<Rightarrow> t | None \<Rightarrow> ''N/A''))
   \<and> (section_yields sec \<and> paragraphs sec = Inr ps \<longrightarrow>
        (joined_paragraphs sec = ''N/A'') = (map text_of ps = [''N/A'']))
   \<and> (search_sections secs = None) = (find section_yields secs = None)
   \<and> ((\<forall>s\<in>set secs. \<not> has_about_heading s) \<longrightarrow> find section_yields secs = None)"
proof (intro conjI impI)
  assume a: "loads_page driver url \<and> about_element (shown driver) = Inl NoSuchElementException
      \<and> sections (shown driver) = Inr secs \<and> find section_yields secs = Some sec"
  then show "fst (extract_about_section driver url) = Inr (joined_paragraphs sec)"
    by (simp add: extract_loaded about_of_page_def about_alternatives_sections)
next
  assume a: "loads_page driver url \<and> about_element (shown driver) = Inl NoSuchElementException
      \<and> sections (shown driver) = Inr secs \<and> find section_yields secs = None
      \<and> all_paragraphs (shown driver) = Inr aps"
  then show "fst (extract_about_section driver url) =
          Inr (case find long_keyword (map text_of (takeWhile readable aps)) of
                 Some t \<Rightarrow> t | None \<Rightarrow> ''N/A'')"
    by (simp add: extract_loaded about_of_page_def about_alternatives_sections)
next
  assume a: "section_yields sec \<and> paragraphs sec = Inr ps"
  then have "map text_of ps \<noteq> []"
    by (auto simp: section_yields_def split: sum.splits)
  then show "(joined_paragraphs sec = ''N/A'') = (map text_of ps = [''N/A''])"
    using a join_single_sentinel [of "map text_of ps"] by (simp add: joined_paragraphs_def)
next
  show "(search_sections secs = None) = (find section_yields secs = None)"
    by (simp add: search_sections_find)
next
  assume "\<forall>s\<in>set secs. \<not> has_about_heading s"
  then show "find section_yields secs = None" by (rule find_yields_none)
qed

lemma lower_about_examples:
  "lower ''ABOUT'' = ''about''"
  "lower ''About'' = ''about''"
  by (simp_all add: lower_def lower_char_def char_of_def bit_Suc_0_iff)

lemma section_yields_examples:
  "\<not> section_yields services_section"
  "\<not> section_yields empty_about_section"
  "section_yields about_us_section"
  "section_yields blank_about_section"
  "has_about_heading blank_about_section"
  by (simp_all add: section_yields_def has_about_heading_def services_section_def
      empty_about_section_def about_us_section_def blank_about_section_def
      heading_matches_def readable_def safe_get_text_def text_element_def strip_def is_space_def
      lower_examples lower_about_examples)

lemma text_of_empty: "text_of (text_element []) = ''N/A''"
  by (simp add: text_of_def safe_get_text_def text_element_def)

theorem about_fallback_exact_witness:
  "loads_page skipping_site (Str ''u'')
   \<and> about_element (shown skipping_site) = Inl NoSuchElementException
   \<and> sections (shown skipping_site) = Inr [services_section, empty_about_section, about_us_section]
   \<and> find section_yields [services_section, empty_about_section, about_us_section] = Some about_us_section
   \<and> fst (extract_about_section skipping_site (Str ''u'')) =
        Inr (''We roof.'' @ [CHR 0x0A] @ ''Since 1990.'')
   \<and> loads_page paragraph_site (Str ''u'')
   \<and> about_element (shown paragraph_site) = Inl NoSuchElementException
   \<and> sections (shown paragraph_site) = Inr [services_section]
   \<and> \<not> has_about_heading services_section
   \<and> find section_yields [services_section] = None
   \<and> all_paragraphs (shown paragraph_site) = Inr [text_element ''Roof repair.'', text_element company_text]
   \<and> fst (extract_about_section paragraph_site (Str ''u'')) = Inr company_text
   \<and> section_yields about_us_section
   \<and> paragraphs about_us_section = Inr [text_element ''We roof.'', text_element ''Since 1990.'']
   \<and> joined_paragraphs about_us_section \<noteq> ''N/A''"
proof -
  let ?secs = "[services_section, empty_about_section, about_us_section]"
  let ?aps = "[text_element ''Roof repair.'', text_element company_text]"
  let ?ps = "[text_element ''We roof.'', text_element ''Since 1990.'']"
  have h1: "loads_page skipping_site (Str ''u'')"
    by (simp add: loads_page_def skipping_site_def steady_navigate)
  have h2: "about_element (shown skipping_site) = Inl NoSuchElementException"
    by (simp add: skipping_site_def)
  have h3: "sections (shown skipping_site) = Inr ?secs"
    by (simp add: skipping_site_def)
  have h4: "find section_yields ?secs = Some about_us_section"
    by (simp add: section_yields_examples)
  have j: "joined_paragraphs about_us_section = ''We roof.'' @ [CHR 0x0A] @ ''Since 1990.''"
    by (simp add: joined_paragraphs_def about_us_section_def text_of_text_element)
  have g1: "loads_page paragraph_site (Str ''u'')"
    by (simp add: loads_page_def paragraph_site_def steady_navigate)
  have g2: "about_element (shown paragraph_site) = Inl NoSuchElementException"
    by (simp add: paragraph_site_def paragraph_page_def)
  have g3: "sections (shown paragraph_site) = Inr [services_section]"
    by (simp add: paragraph_site_def paragraph_page_def)
  have g4: "\<not> has_about_heading services_section"
    by (simp add: has_about_heading_def services_section_def heading_matches_examples)
  then have g4': "\<forall>s\<in>set [services_section]. \<not> has_about_heading s" by simp
  have g5: "all_paragraphs (shown paragraph_site) = Inr ?aps"
    by (simp add: paragraph_site_def paragraph_page_def)
  have f: "(case find long_keyword (map text_of (takeWhile readable ?aps)) of
             Some t \<Rightarrow> t | None \<Rightarrow> ''N/A'') = company_text"
    by (simp add: text_of_text_element long_keyword_examples)
  have k1: "section_yields about_us_section" by (rule section_yields_examples)
  have k2: "paragraphs about_us_section = Inr ?ps" by (simp add: about_us_section_def)
  have k3: "map text_of ?ps \<noteq> [''N/A'']" by simp
  note t1 = about_fallback_exact [of skipping_site "Str ''u''" ?secs about_us_section "[]" ?ps]
  note t2 = about_fallback_exact [of paragraph_site "Str ''u''" "[services_section]" about_us_section ?aps ?ps]
  from t1 h1 h2 h3 h4 have "fst (extract_about_section skipping_site (Str ''u'')) =
      Inr (joined_paragraphs about_us_section)"
    by blast
  then have a: "fst (extract_about_section skipping_site (Str ''u'')) =
        Inr (''We roof.'' @ [CHR 0x0A] @ ''Since 1990.'')"
    by (simp only: j)
  from t2 g4' have g6: "find section_yields [services_section] = None" by blast
  from t2 g1 g2 g3 g6 g5 have "fst (extract_about_section paragraph_site (Str ''u'')) =
      Inr (case find long_keyword (map text_of (takeWhile readable ?aps)) of
             Some t \<Rightarrow> t | None \<Rightarrow> ''N/A'')"
    by blast
  then have b: "fst (extract_about_section paragraph_site (Str ''u'')) = Inr company_text"
    by (simp only: f)
  from t1 k1 k2 have "(joined_paragraphs about_us_section = ''N/A'') = (map text_of ?ps = [''N/A''])"
    by blast
  then have c: "joined_paragraphs about_us_section \<noteq> ''N/A''" using k3 by blast
  show ?thesis using h1 h2 h3 h4 a g1 g2 g3 g4 g6 g5 b k1 k2 c by blast
qed

lemma short_sentinel: "\<not> long_keyword ''N/A''"
  by (simp add: long_keyword_def)

text \<open>
  Claim C7 as stated fails: the canonical locator finds nothing, a section is headed
  \<open>ABOUT\<close> and has a paragraph element, the paragraph scan would find a qualifying
  paragraph, and yet the function returns the sentinel, the joined text of the one empty
  paragraph.
\<close>

theorem about_heading_returns_sentinel:
  "loads_page sentinel_site (Str ''u'')
   \<and> about_element (shown sentinel_site) = Inl NoSuchElementException
   \<and> sections (shown sentinel_site) = Inr [blank_about_section]
   \<and> has_about_heading blank_about_section
   \<and> paragraphs blank_about_section = Inr [text_element []]
   \<and> all_paragraphs (shown sentinel_site) = Inr [text_element [], text_element company_text]
   \<and> scan_paragraphs [text_element [], text_element company_text] = Inr (Some company_text)
   \<and> fst (extract_about_section sentinel_site (Str ''u'')) = Inr ''N/A''"
proof -
  have s: "scan_paragraphs [text_element [], text_element company_text] = Inr (Some company_text)"
    using scan_paragraphs_find [of "[text_element [], text_element company_text]"] short_sentinel
    by (simp add: text_of_text_element text_of_empty long_keyword_examples
        del: scan_paragraphs.simps)
  have y: "find section_yields [blank_about_section] = Some blank_about_section"
    by (simp add: section_yields_examples)
  have j: "joined_paragraphs blank_about_section = ''N/A''"
    by (simp add: joined_paragraphs_def blank_about_section_def text_of_empty)
  have r: "fst (extract_about_section sentinel_site (Str ''u'')) = Inr ''N/A''"
    using y j
    by (simp add: extract_loaded loads_page_def steady_navigate sentinel_site_def about_of_page_def
        about_alternatives_sections)
  have h1: "loads_page sentinel_site (Str ''u'')"
    by (simp add: loads_page_def steady_navigate sentinel_site_def)
  have h2: "about_element (shown sentinel_site) = Inl NoSuchElementException"
    by (simp add: sentinel_site_def)
  have h3: "sections (shown sentinel_site) = Inr [blank_about_section]"
    by (simp add: sentinel_site_def)
  have h4: "has_about_heading blank_about_section" by (rule section_yields_examples)
  have h5: "paragraphs blank_about_section = Inr [text_element []]"
    by (simp add: blank_about_section_def)
  have h6: "all_paragraphs (shown sentinel_site) = Inr [text_element [], text_element company_text]"
    by (simp add: sentinel_site_def)
  show ?thesis using h1 h2 h3 h4 h5 h6 s r by blast
qed

section \<open>Properties of the pagination walker\<close>

lemma visits_append [simp]: "visits (xs @ ys) = visits xs @ visits ys"
  by (induction xs rule: visits.induct) simp_all

lemma clicks_append [simp]: "clicks (xs @ ys) = clicks xs + clicks ys"
  by (induction xs rule: clicks.induct) simp_all

lemma walk_done: "\<not> c \<le> n \<Longrightarrow> walk site n c acc tr = (Inr acc, tr)"
  by (subst walk.simps) simp

lemma walk_advance:
  "advances site n c \<Longrightarrow>
   \<exists>acc'. walk site n c acc tr = walk site n (Suc c) acc' (tr @ [Visit c, Click, Sleep 5])"
  by (subst walk.simps) (auto simp: advances_def split: sum.splits option.splits)

lemma walk_stop:
  "c \<le> n \<Longrightarrow> \<not> advances site n c \<Longrightarrow>
   snd (walk site n c acc tr) = tr @ [Visit c]
   \<or> (c < n \<and> \<not> terminal (site c) \<and> snd (walk site n c acc tr) = tr @ [Visit c, Click, Sleep 5])"
  by (subst (1 2) walk.simps) (auto simp: advances_def terminal_def split: sum.splits option.splits)

lemma terminal_not_advances: "terminal (site c) \<Longrightarrow> \<not> advances site n c"
  by (auto simp: terminal_def advances_def split: sum.splits option.splits)

lemma walk_visits_bound:
  "length (visits (snd (walk site n c acc tr))) \<le> length (visits tr) + (n + 1 - c)"
proof (induction "n + 1 - c" arbitrary: c acc tr)
  case 0
  then have "\<not> c \<le> n" by simp
  then show ?case by (simp add: walk_done)
next
  case (Suc k)
  then have le: "c \<le> n" and k: "k = n + 1 - Suc c" by simp_all
  show ?case
  proof (cases "advances site n c")
    case True
    then obtain acc' where
      "walk site n c acc tr = walk site n (Suc c) acc' (tr @ [Visit c, Click, Sleep 5])"
      using walk_advance by blast
    then show ?thesis
      using Suc.hyps(1) [OF k, of acc' "tr @ [Visit c, Click, Sleep 5]"] le by simp
  next
    case False
    then show ?thesis using walk_stop [OF le False, of acc tr] le by auto
  qed
qed

lemma walk_clicks_bound:
  "clicks (snd (walk site n c acc tr)) \<le> clicks tr + (n - c)"
proof (induction "n + 1 - c" arbitrary: c acc tr)
  case 0
  then have "\<not> c \<le> n" by simp
  then show ?case by (simp add: walk_done)
next
  case (Suc k)
  then have le: "c \<le> n" and k: "k = n + 1 - Suc c" by simp_all
  show ?case
  proof (cases "advances site n c")
    case True
    then have lt: "c < n" by (simp add: advances_def)
    from True obtain acc' where
      "walk site n c acc tr = walk site n (Suc c) acc' (tr @ [Visit c, Click, Sleep 5])"
      using walk_advance by blast
    then show ?thesis
      using Suc.hyps(1) [OF k, of acc' "tr @ [Visit c, Click, Sleep 5]"] lt by simp
  next
    case False
    then show ?thesis using walk_stop [OF le False, of acc tr] by auto
  qed
qed

lemma walk_terminal:
  assumes "terminal (site k)"
  shows "c \<le> k \<Longrightarrow>
     set (visits (snd (walk site n c acc tr))) \<subseteq> set (visits tr) \<union> {c..k}
     \<and> clicks (snd (walk site n c acc tr)) \<le> clicks tr + (k - c)"
proof (induction "n + 1 - c" arbitrary: c acc tr)
  case 0
  then have "\<not> c \<le> n" by simp
  then show ?case by (simp add: walk_done)
next
  case (Suc m)
  then have le: "c \<le> n" and m: "m = n + 1 - Suc c" by simp_all
  show ?case
  proof (cases "advances site n c")
    case True
    then have "c \<noteq> k" using assms terminal_not_advances by blast
    then have ck: "Suc c \<le> k" using Suc.prems by simp
    from True obtain acc' where
      w: "walk site n c acc tr = walk site n (Suc c) acc' (tr @ [Visit c, Click, Sleep 5])"
      using walk_advance by blast
    have ih: "set (visits (snd (walk site n (Suc c) acc' (tr @ [Visit c, Click, Sleep 5]))))
        \<subseteq> set (visits (tr @ [Visit c, Click, Sleep 5])) \<union> {Suc c..k}
      \<and> clicks (snd (walk site n (Suc c) acc' (tr @ [Visit c, Click, Sleep 5])))
        \<le> clicks (tr @ [Visit c, Click, Sleep 5]) + (k - Suc c)"
      by (rule Suc.hyps(1) [OF m ck])
    have "{Suc c..k} \<subseteq> {c..k}" by auto
    then show ?thesis using ih w ck by auto
  next
    case False
    show ?thesis
    proof (cases "c = k")
      case True
      then have "snd (walk site n c acc tr) = tr @ [Visit c]"
        using walk_stop [OF le False, of acc tr] assms by auto
      then show ?thesis using Suc.prems by simp
    next
      case ne: False
      then have "c < k" using Suc.prems by simp
      then show ?thesis using walk_stop [OF le False, of acc tr] by auto
    qed
  qed
qed

lemma navigate_no_visits:
  "visits (snd (safe_navigate_from b u m a)) = [] \<and> clicks (snd (safe_navigate_from b u m a)) = 0"
proof (induction "m - a" arbitrary: a)
  case 0
  then show ?case by (simp add: snf_done)
next
  case (Suc k)
  then have "k = m - Suc a" by simp
  from Suc.hyps(1) [OF this] show ?case
    by (subst (1 2) safe_navigate_from.simps) (auto split: load_outcome.splits prod.splits)
qed

lemma walk_gets: "gets (snd (walk site n c acc tr)) = gets tr"
proof (induction "n + 1 - c" arbitrary: c acc tr)
  case 0
  then have "\<not> c \<le> n" by simp
  then show ?case by (simp add: walk_done)
next
  case (Suc k)
  then have le: "c \<le> n" and k: "k = n + 1 - Suc c" by simp_all
  show ?case
  proof (cases "advances site n c")
    case True
    then obtain acc' where
      "walk site n c acc tr = walk site n (Suc c) acc' (tr @ [Visit c, Click, Sleep 5])"
      using walk_advance by blast
    then show ?thesis
      using Suc.hyps(1) [OF k, of acc' "tr @ [Visit c, Click, Sleep 5]"] by simp
  next
    case False
    then show ?thesis using walk_stop [OF le False, of acc tr] by auto
  qed
qed

lemma scrape_snd:
  "snd (scrape_contractor_info driver u n) =
     (if fst (safe_navigate (base_loads driver) u 3) = Inr True
      then snd (walk (pages driver) n 1 [] (snd (safe_navigate (base_loads driver) u 3)))
      else snd (safe_navigate (base_loads driver) u 3))"
  by (auto simp: scrape_contractor_info_def split: prod.splits sum.splits bool.splits)

lemma navigate_quiet:
  "visits (snd (safe_navigate b u m)) = []" "clicks (snd (safe_navigate b u m)) = 0"
  using navigate_no_visits [of b u m 0] by (simp_all add: safe_navigate_def)

lemma navigate_gets: "length (gets (snd (safe_navigate b u m))) \<le> m"
  using safe_navigate_from_gets [of b u m 0] by (simp add: safe_navigate_def)

text \<open>
  Claim C4. \<open>walk\<close> is a total function: its recursion is justified by the measure
  \<open>max_pages + 1 - current_page\<close>, so the loop halts on every site. For every \<open>max_pages\<close>
  the walker processes at most \<open>max_pages\<close> listing pages and clicks the next button at most
  \<open>max_pages - 1\<close> times, after at most 3 attempts to load the base URL; for
  \<open>max_pages \<ge> 1\<close> it brings up at most \<open>max_pages\<close> listing pages. A page \<open>k\<close> that
  yields no item, has no locatable next button or has a disabled one ends the walk there: no
  page beyond \<open>k\<close> is processed and at most \<open>k - 1\<close> clicks are made.
\<close>

theorem pagination_bounded:
  "length (visits (snd (scrape_contractor_info driver base_url max_pages))) \<le> max_pages
   \<and> clicks (snd (scrape_contractor_info driver base_url max_pages)) \<le> max_pages - 1
   \<and> length (gets (snd (scrape_contractor_info driver base_url max_pages))) \<le> 3
   \<and> (1 \<le> max_pages \<longrightarrow> page_loads driver base_url max_pages \<le> max_pages)
   \<and> (1 \<le> k \<and> terminal (pages driver k) \<longrightarrow>
        set (visits (snd (scrape_contractor_info driver base_url max_pages))) \<subseteq> {1..k}
        \<and> clicks (snd (scrape_contractor_info driver base_url max_pages)) \<le> k - 1)"
proof (intro conjI impI)
  let ?nav = "safe_navigate (base_loads driver) base_url 3"
  show v: "length (visits (snd (scrape_contractor_info driver base_url max_pages))) \<le> max_pages"
    using walk_visits_bound [of "pages driver" max_pages 1 "[]" "snd ?nav"]
    by (simp add: scrape_snd navigate_quiet)
  show c: "clicks (snd (scrape_contractor_info driver base_url max_pages)) \<le> max_pages - 1"
    using walk_clicks_bound [of "pages driver" max_pages 1 "[]" "snd ?nav"]
    by (simp add: scrape_snd navigate_quiet)
  show "length (gets (snd (scrape_contractor_info driver base_url max_pages))) \<le> 3"
    using navigate_gets [of "base_loads driver" base_url 3]
    by (simp add: scrape_snd walk_gets)
  show "page_loads driver base_url max_pages \<le> max_pages" if "1 \<le> max_pages"
    using c that by (auto simp: page_loads_def)
  show "set (visits (snd (scrape_contractor_info driver base_url max_pages))) \<subseteq> {1..k}"
    if "1 \<le> k \<and> terminal (pages driver k)"
    using walk_terminal [of "pages driver" k 1 max_pages "[]" "snd ?nav"] that
    by (simp add: scrape_snd navigate_quiet)
  show "clicks (snd (scrape_contractor_info driver base_url max_pages)) \<le> k - 1"
    if "1 \<le> k \<and> terminal (pages driver k)"
    using walk_terminal [of "pages driver" k 1 max_pages "[]" "snd ?nav"] that
    by (simp add: scrape_snd navigate_quiet)
qed

lemma terminal_examples:
  "terminal (listing_with [listing_item [''Master Elite''] ''(555) 010-0000''] (Inr disabled_button))"
  "terminal (listing_with [listing_item [''Master Elite''] ''(555) 010-0000''] (Inl NoSuchElementException))"
  "terminal (listing_with [] (Inr (text_element ''Next'')))"
  by (simp_all add: terminal_def listing_with_def find_next_button_def safe_get_attribute_def
      disabled_button_def wait_and_find_elements_def)

lemma site_of_pages: "pages (site_of pg) k = pg"
  by (simp add: site_of_def)

theorem pagination_bounded_witness:
  "(1::nat) \<le> 10 \<and> (1::nat) \<le> 1
   \<and> terminal (pages (site_of (listing_with [listing_item [''Master Elite''] ''(555) 010-0000'']
        (Inr disabled_button))) 1)
   \<and> terminal (pages (site_of (listing_with [listing_item [''Master Elite''] ''(555) 010-0000'']
        (Inl NoSuchElementException))) 1)
   \<and> terminal (pages (site_of (listing_with [] (Inr (text_element ''Next'')))) 1)
   \<and> page_loads (site_of (listing_with [listing_item [''Master Elite''] ''(555) 010-0000'']
        (Inr disabled_button))) (Str ''u'') 10 \<le> 10
   \<and> clicks (snd (scrape_contractor_info (site_of (listing_with
        [listing_item [''Master Elite''] ''(555) 010-0000''] (Inr disabled_button))) (Str ''u'') 10)) \<le> 1 - 1
   \<and> clicks (snd (scrape_contractor_info (site_of (listing_with
        [listing_item [''Master Elite''] ''(555) 010-0000''] (Inl NoSuchElementException))) (Str ''u'') 10)) \<le> 1 - 1
   \<and> clicks (snd (scrape_contractor_info (site_of (listing_with [] (Inr (text_element ''Next''))))
        (Str ''u'') 10)) \<le> 1 - 1"
proof -
  let ?a = "site_of (listing_with [listing_item [''Master Elite''] ''(555) 010-0000''] (Inr disabled_button))"
  let ?b = "site_of (listing_with [listing_item [''Master Elite''] ''(555) 010-0000''] (Inl NoSuchElementException))"
  let ?c = "site_of (listing_with [] (Inr (text_element ''Next'')))"
  have n: "(1::nat) \<le> 10" "(1::nat) \<le> 1" by simp_all
  have ta: "terminal (pages ?a 1)" by (simp only: site_of_pages terminal_examples)
  have tb: "terminal (pages ?b 1)" by (simp only: site_of_pages terminal_examples)
  have tc: "terminal (pages ?c 1)" by (simp only: site_of_pages terminal_examples)
  note a = pagination_bounded [of ?a "Str ''u''" 10 1]
  note b = pagination_bounded [of ?b "Str ''u''" 10 1]
  note c = pagination_bounded [of ?c "Str ''u''" 10 1]
  from a n have a1: "page_loads ?a (Str ''u'') 10 \<le> 10" by blast
  from a n ta have a2: "clicks (snd (scrape_contractor_info ?a (Str ''u'') 10)) \<le> 1 - 1" by blast
  from b n tb have b2: "clicks (snd (scrape_contractor_info ?b (Str ''u'') 10)) \<le> 1 - 1" by blast
  from c n tc have c2: "clicks (snd (scrape_contractor_info ?c (Str ''u'') 10)) \<le> 1 - 1" by blast
  show ?thesis using n ta tb tc a1 a2 b2 c2 by blast
qed

text \<open>The run against a site whose next button is present and disabled on every page.\<close>

lemma disabled_next_run:
  "snd (scrape_contractor_info (site_of (listing_with
        [listing_item [''Master Elite''] ''(555) 010-0000''] (Inr disabled_button))) (Str ''u'') 10) =
     [Get (Str ''u''), Visit 1]"
  by (simp add: scrape_contractor_info_def safe_navigate_def safe_navigate_from.simps site_of_def
      walk.simps listing_with_def wait_and_find_elements_def find_next_button_def
      safe_get_attribute_def disabled_button_def)


end
